theory Spec2Isabelle
  imports Complex_Main "HOL-Library.Word" "HOL-Library.Log_Nat"
begin

unbundle bit_operations_syntax

section \<open>Errors\<close>

text \<open>
  Every precondition of the library is checked with the macro \<^verbatim>\<open>DSP_ASSERT_THROW(x, s)\<close>
  of \<^verbatim>\<open>dsp_errors.hpp\<close>, which throws \<^verbatim>\<open>std::runtime_error(s)\<close> when \<^verbatim>\<open>x\<close> is false.
  The exception is modelled as a value carrying the message; a fallible operation returns
  \<open>dsp_error + 'a\<close> with \<open>Inl\<close> for the throw.

  Where the language leaves the behaviour of an operation undefined for some inputs (an
  overflowing signed counter, a shift by the width of the operand, an iterator outside its
  container, a floating-point value converted to an integer type that cannot hold it), or
  where a loop may run forever, the operation returns an \<open>option\<close>: \<open>None\<close> stands for a
  call without defined result, \<open>Some\<close> for a call that returns or throws.
\<close>

datatype dsp_error = runtime_error string

section \<open>Math kernel (\<^verbatim>\<open>dsp_math.hpp\<close>)\<close>

subsection \<open>Discrete convolution\<close>

text \<open>
  \<^verbatim>\<open>Convolve(first1, last1, first2, last2, result)\<close>. The two input ranges are the lists
  \<open>x\<close> (length \<open>M\<close>) and \<open>h\<close> (length \<open>N\<close>); the model returns the list of the values written
  through \<^verbatim>\<open>result\<close>, in order. The sample type is any type with a zero, an addition and
  a multiplication; no law of arithmetic is assumed of them, so the order in which the
  source adds the products is part of the model.

  The inner loop \<^verbatim>\<open>for (kSub = kMin; kSub <= kMax; ++kSub) *result += x[kSub] * h[k - kSub]\<close>
  accumulates into the output slot, which was set to zero before. Its counter has the type
  of \<^verbatim>\<open>std::distance\<close> (64 bits).
\<close>

function Convolve_inner :: "'a::{plus,times} list \<Rightarrow> 'a list \<Rightarrow> nat \<Rightarrow> nat \<Rightarrow> nat \<Rightarrow> 'a \<Rightarrow> 'a" where
  "Convolve_inner x h k kSub kMax acc =
     (if kSub \<le> kMax
      then Convolve_inner x h k (kSub + 1) kMax (acc + x ! kSub * h ! (k - kSub))
      else acc)"
  by pat_completeness auto
termination
  by (relation "measure (\<lambda>(x, h, k, kSub, kMax, acc). Suc kMax - kSub)") auto

declare Convolve_inner.simps [simp del]

text \<open>
  The outer loop \<^verbatim>\<open>for (auto k = 0; k < K; ++k)\<close> computes the bounds
  \<^verbatim>\<open>kMin = k >= N - 1 ? k - (N - 1) : 0\<close> and \<^verbatim>\<open>kMax = k < M - 1 ? k : M - 1\<close>,
  writes one output value and advances the output iterator. Its counter \<open>k\<close> is an
  \<^verbatim>\<open>int\<close>: the increment of \<open>2 ^ 31 - 1\<close> overflows and has no defined result, for which
  the model returns \<open>None\<close>.
\<close>

function Convolve_outer ::
  "'a::{zero,plus,times} list \<Rightarrow> 'a list \<Rightarrow> nat \<Rightarrow> nat \<Rightarrow> 'a list \<Rightarrow> 'a list option" where
  "Convolve_outer x h K k out =
     (if k < K
      then (let M = length x; N = length h;
                kMin = (if k \<ge> N - 1 then k - (N - 1) else 0);
                kMax = (if k < M - 1 then k else M - 1);
                out' = out @ [Convolve_inner x h k kMin kMax 0]
            in if k + 1 < 2 ^ 31 then Convolve_outer x h K (k + 1) out' else None)
      else Some out)"
  by pat_completeness auto
termination
  by (relation "measure (\<lambda>(x, h, K, k, out). K - k)") auto

declare Convolve_outer.simps [simp del]

definition Convolve :: "'a::{zero,plus,times} list \<Rightarrow> 'a list \<Rightarrow> (dsp_error + 'a list) option" where
  "Convolve x h =
     (let M = length x in
      if \<not> M > 0 then Some (Inl (runtime_error ''range 1 invalid''))
      else let N = length h in
      if \<not> N > 0 then Some (Inl (runtime_error ''range 2 invalid''))
      else let K = M + N - 1 in
        (case Convolve_outer x h K 0 [] of
           None \<Rightarrow> None
         | Some y \<Rightarrow> Some (Inr y)))"

text \<open>
  The value that the convolution sum assigns to output index \<open>k\<close>: the sum of
  \<open>x[j] * h[k - j]\<close> over the overlap \<open>max(0, k - N + 1) \<le> j \<le> min(k, M - 1)\<close>, added up from
  zero in increasing order of \<open>j\<close>. The lower bound is written with the truncating
  subtraction of \<open>nat\<close>.
\<close>

definition Convolve_value :: "'a::{zero,plus,times} list \<Rightarrow> 'a list \<Rightarrow> nat \<Rightarrow> 'a" where
  "Convolve_value x h k =
     foldl (\<lambda>acc j. acc + x ! j * h ! (k - j)) 0
       [k + 1 - length h..<Suc (min k (length x - 1))]"

subsection \<open>Bessel, sinc, greatest common divisor, power-of-two test\<close>

text \<open>
  Floating-point values are idealised as exact real numbers throughout: \<^verbatim>\<open>FloatType\<close>
  and \<^verbatim>\<open>double\<close> are \<open>real\<close>, \<^verbatim>\<open>std::complex<FloatType>\<close> is \<open>complex\<close>, and the
  library functions \<^verbatim>\<open>std::floor\<close>, \<^verbatim>\<open>std::cos\<close>, \<^verbatim>\<open>std::sqrt\<close>, ... are their
  mathematical counterparts. Conversions between integers and floating point are exact.

  \<^verbatim>\<open>Bessel(x)\<close>: the loop \<^verbatim>\<open>for (i = 1; i < 10; ++i)\<close> adds
  \<^verbatim>\<open>pow(pow(x / 2, i) / i!, 2)\<close> to \<^verbatim>\<open>sum\<close> (here \<open>acc\<close>), where the factorial is
  recomputed by an inner loop. The first argument of each loop function counts the
  remaining iterations.
\<close>

fun factorial_loop :: "nat \<Rightarrow> nat \<Rightarrow> int \<Rightarrow> int" where
  "factorial_loop 0 j factorial = factorial"
| "factorial_loop (Suc cnt) j factorial = factorial_loop cnt (j + 1) (factorial * int j)"

fun Bessel_loop :: "real \<Rightarrow> nat \<Rightarrow> nat \<Rightarrow> real \<Rightarrow> real" where
  "Bessel_loop x 0 i acc = acc"
| "Bessel_loop x (Suc cnt) i acc =
     (let xToIpower = (x / 2) ^ i;
          factorial = factorial_loop i 1 1
      in Bessel_loop x cnt (i + 1) (acc + (xToIpower / real_of_int factorial) ^ 2))"

definition Bessel :: "real \<Rightarrow> real" where
  "Bessel x = Bessel_loop x 9 1 0 + 1"

definition Sinc :: "real \<Rightarrow> real \<Rightarrow> real" where
  "Sinc x limitThreshold = (if \<bar>x\<bar> < limitThreshold then 1 else sin x / x)"

definition SincNorm :: "real \<Rightarrow> real \<Rightarrow> real" where
  "SincNorm x limitThreshold =
     (if \<bar>x\<bar> < limitThreshold then 1 else (let X = pi * x in sin X / X))"

text \<open>The default argument \<^verbatim>\<open>limitThreshold = 1.e-9\<close> of both sinc functions.\<close>

definition limitThreshold_default :: real where
  "limitThreshold_default = 1 / 10 ^ 9"

text \<open>
  \<^verbatim>\<open>Gcd(a, b)\<close>, the binary algorithm on an unsigned type. No operation of it can
  overflow (every intermediate value is bounded by the larger argument), so the unsigned
  type is \<open>nat\<close>. \<^verbatim>\<open>~a & 1\<close> is non-zero exactly when bit 0 of \<open>a\<close> is clear;
  \<^verbatim>\<open>>> 1\<close> and \<^verbatim>\<open><< 1\<close> are \<open>drop_bit 1\<close> and \<open>push_bit 1\<close>.
\<close>

function Gcd_dsp :: "nat \<Rightarrow> nat \<Rightarrow> nat" where
  "Gcd_dsp a b =
     (if a = b then a
      else if 0 = a then b
      else if 0 = b then a
      else if \<not> bit a 0 then
        (if bit b 0 then Gcd_dsp (drop_bit 1 a) b
         else push_bit 1 (Gcd_dsp (drop_bit 1 a) (drop_bit 1 b)))
      else if \<not> bit b 0 then Gcd_dsp a (drop_bit 1 b)
      else if a > b then Gcd_dsp (drop_bit 1 (a - b)) b
      else Gcd_dsp (drop_bit 1 (b - a)) a)"
  by pat_completeness auto
termination
  by (relation "measure (\<lambda>(a, b). a + b)") (auto simp: drop_bit_eq_div)

declare Gcd_dsp.simps [simp del]

text \<open>
  \<^verbatim>\<open>IsPowerOf2(n)\<close> for an integral type. The conjunction short-circuits, so \<open>n - 1\<close> is
  only formed for positive \<open>n\<close> and does not wrap; container sizes are \<open>nat\<close>.
\<close>

definition IsPowerOf2 :: "nat \<Rightarrow> bool" where
  "IsPowerOf2 n = (n > 0 \<and> (n AND (n - 1)) = 0)"

section \<open>Window framework (\<^verbatim>\<open>dsp_window_functions.hpp\<close>)\<close>

subsection \<open>Coefficient generation\<close>

text \<open>
  \<^verbatim>\<open>WindowGenerator(windowCoeffs, evalCoeff)\<close> fills a pre-sized vector in place. The
  loop \<^verbatim>\<open>for (n = 0, nRev = size - 1; n < halfSize; ++n, --nRev)\<close> evaluates
  coefficient \<open>n\<close> and copies it to position \<open>nRev\<close>. An evaluator may throw (the flat-top
  evaluator checks its equation coefficients), which aborts the generation.
\<close>

function WindowGenerator_loop ::
  "(real \<Rightarrow> real \<Rightarrow> dsp_error + real) \<Rightarrow> real \<Rightarrow> nat \<Rightarrow> nat \<Rightarrow> nat \<Rightarrow> real list
    \<Rightarrow> dsp_error + real list" where
  "WindowGenerator_loop evalCoeff sizeMinusOne halfSize n nRev windowCoeffs =
     (if n < halfSize
      then (case evalCoeff (real n) sizeMinusOne of
              Inl e \<Rightarrow> Inl e
            | Inr c \<Rightarrow>
                (let w1 = windowCoeffs[n := c];
                     w2 = w1[nRev := w1 ! n]
                 in WindowGenerator_loop evalCoeff sizeMinusOne halfSize (n + 1) (nRev - 1) w2))
      else Inr windowCoeffs)"
  by pat_completeness auto
termination
  by (relation "measure (\<lambda>(evalCoeff, sizeMinusOne, halfSize, n, nRev, w). halfSize - n)") auto

declare WindowGenerator_loop.simps [simp del]

definition WindowGenerator ::
  "real list \<Rightarrow> (real \<Rightarrow> real \<Rightarrow> dsp_error + real) \<Rightarrow> dsp_error + real list" where
  "WindowGenerator windowCoeffs evalCoeff =
     (let size = length windowCoeffs in
      if \<not> size > 1 then Inl (runtime_error ''invalid window size'')
      else
        (let sizeMinusOne = real (size - 1);
             halfSize = drop_bit 1 size
         in case WindowGenerator_loop evalCoeff sizeMinusOne halfSize 0 (size - 1) windowCoeffs of
              Inl e \<Rightarrow> Inl e
            | Inr w \<Rightarrow>
                if 1 = size mod 2
                then (case evalCoeff (real halfSize) sizeMinusOne of
                        Inl e \<Rightarrow> Inl e
                      | Inr c \<Rightarrow> Inr (w[halfSize := c]))
                else Inr w))"

text \<open>
  \<^verbatim>\<open>EvaluateFlatTopCoefficient(n, sizeMinusOne, eqCoeffsFirst, eqCoeffsLast)\<close>: the loop
  runs over the equation coefficients after the first, with an alternating sign and the
  counter \<open>i\<close> starting at 1.
\<close>

fun EvaluateFlatTop_loop :: "real \<Rightarrow> real \<Rightarrow> real list \<Rightarrow> real \<Rightarrow> nat \<Rightarrow> real \<Rightarrow> real" where
  "EvaluateFlatTop_loop twoPiN sizeMinusOne [] sign i windowCoeff = windowCoeff"
| "EvaluateFlatTop_loop twoPiN sizeMinusOne (c # cs) sign i windowCoeff =
     EvaluateFlatTop_loop twoPiN sizeMinusOne cs (sign * (- 1)) (i + 1)
       (windowCoeff + sign * c * cos ((real i * twoPiN) / sizeMinusOne))"

definition EvaluateFlatTopCoefficient :: "real \<Rightarrow> real \<Rightarrow> real list \<Rightarrow> dsp_error + real" where
  "EvaluateFlatTopCoefficient n sizeMinusOne eqCoeffs =
     (let numEqCoeffs = length eqCoeffs in
      if \<not> numEqCoeffs > 1 then Inl (runtime_error ''invalid number of equation coefficients'')
      else Inr (EvaluateFlatTop_loop (2 * pi * n) sizeMinusOne (tl eqCoeffs) (- 1) 1 (hd eqCoeffs)))"

text \<open>The generator functors. Only the Kaiser generator has state, its \<open>beta\<close>.\<close>

datatype generator =
    FlatTop1Generator | FlatTop2Generator | FlatTop3Generator | FlatTop4Generator
  | FlatTop5Generator | FlatTop6Generator | FlatTop7Generator
  | HannGenerator | HammingGenerator | RectangleGenerator | BartlettGenerator
  | ExactBlackmanGenerator | BlackmanGenerator | KaiserGenerator real | LanczosGenerator

text \<open>The constructor \<^verbatim>\<open>KaiserGenerator(double beta)\<close> requires a positive \<open>beta\<close>.\<close>

definition KaiserGenerator_init :: "real \<Rightarrow> dsp_error + generator" where
  "KaiserGenerator_init beta =
     (if \<not> beta > 0 then Inl (runtime_error ''beta <= 0'') else Inr (KaiserGenerator beta))"

text \<open>
  The member \<^verbatim>\<open>EvaluateCoefficient(n, sizeMinusOne)\<close> of each generator that has one
  (the rectangle generator fills the vector directly).
\<close>

fun EvaluateCoefficient :: "generator \<Rightarrow> real \<Rightarrow> real \<Rightarrow> dsp_error + real" where
  "EvaluateCoefficient FlatTop1Generator n sizeMinusOne =
     EvaluateFlatTopCoefficient n sizeMinusOne [1, 1.933, 1.286, 0.388, 0.0322]"
| "EvaluateCoefficient FlatTop2Generator n sizeMinusOne =
     EvaluateFlatTopCoefficient n sizeMinusOne [0.2810639, 0.5208972, 0.1980399]"
| "EvaluateCoefficient FlatTop3Generator n sizeMinusOne =
     EvaluateFlatTopCoefficient n sizeMinusOne
       [0.21557895, 0.41663158, 0.277263158, 0.083578947, 0.006947368]"
| "EvaluateCoefficient FlatTop4Generator n sizeMinusOne =
     EvaluateFlatTopCoefficient n sizeMinusOne [0.9994484, 1.911456, 1.076578, 0.183162]"
| "EvaluateCoefficient FlatTop5Generator n sizeMinusOne =
     EvaluateFlatTopCoefficient n sizeMinusOne [1, 1.869032, 1.195972, 0.035928, 0.030916]"
| "EvaluateCoefficient FlatTop6Generator n sizeMinusOne =
     EvaluateFlatTopCoefficient n sizeMinusOne
       [1, 1.93774046310203, 1.32530734987255, 0.43206975880342, 0.04359135851569,
        0.00015175580171]"
| "EvaluateCoefficient FlatTop7Generator n sizeMinusOne =
     EvaluateFlatTopCoefficient n sizeMinusOne [0.1881999, 0.36923, 0.28702, 0.13077, 0.02488]"
| "EvaluateCoefficient HannGenerator n sizeMinusOne =
     (let twoPiN = 2 * pi * n in Inr (0.5 * (1 - cos (twoPiN / sizeMinusOne))))"
| "EvaluateCoefficient HammingGenerator n sizeMinusOne =
     (let a0 = 0.53836; a1 = 0.46164; twoPiN = 2 * pi * n
      in Inr (a0 - (a1 * cos (twoPiN / sizeMinusOne))))"
| "EvaluateCoefficient RectangleGenerator n sizeMinusOne = Inr 1"
| "EvaluateCoefficient BartlettGenerator n sizeMinusOne =
     (let commonTerm = sizeMinusOne / 2; numerator = n - commonTerm
      in Inr (1 - \<bar>numerator / commonTerm\<bar>))"
| "EvaluateCoefficient ExactBlackmanGenerator n sizeMinusOne =
     (let a0 = 7938 / 18608; a1 = 9240 / 18608; a2 = 1430 / 18608;
          twoPiN = 2 * pi * n; fourPiN = (2 * (2 * pi)) * n
      in Inr (a0 - (a1 * cos (twoPiN / sizeMinusOne)) + (a2 * cos (fourPiN / sizeMinusOne))))"
| "EvaluateCoefficient BlackmanGenerator n sizeMinusOne =
     (let a0 = 0.42; a1 = 0.5; a2 = 0.08;
          twoPiN = 2 * pi * n; fourPiN = (2 * (2 * pi)) * n
      in Inr (a0 - (a1 * cos (twoPiN / sizeMinusOne)) + (a2 * cos (fourPiN / sizeMinusOne))))"
| "EvaluateCoefficient (KaiserGenerator m_beta) n sizeMinusOne =
     (let term = ((2 * n) / sizeMinusOne) - 1;
          arg = m_beta * sqrt (1 - (term * term))
      in Inr (Bessel arg / Bessel m_beta))"
| "EvaluateCoefficient LanczosGenerator n sizeMinusOne =
     (let arg = ((2 * n) / sizeMinusOne) - 1 in Inr (SincNorm arg limitThreshold_default))"

text \<open>
  \<^verbatim>\<open>generator(windowCoeffs)\<close>, the function-call operator of a generator: the rectangle
  generator checks the size and fills the vector with ones, every other generator calls
  \<^verbatim>\<open>WindowGenerator\<close> with its evaluator.
\<close>

definition generate :: "generator \<Rightarrow> real list \<Rightarrow> dsp_error + real list" where
  "generate g windowCoeffs =
     (case g of
        RectangleGenerator \<Rightarrow>
          (let size = length windowCoeffs in
           if \<not> size > 1 then Inl (runtime_error ''invalid window size'')
           else Inr (replicate (length windowCoeffs) 1))
      | _ \<Rightarrow> WindowGenerator windowCoeffs (EvaluateCoefficient g))"

subsection \<open>The window object\<close>

record WindowFunction =
  m_windowCoefficients :: "real list"
  m_ignoreLastValue :: bool
  m_effectiveSize :: nat
  m_coherentGain :: real
  m_powerGain :: real
  m_enbw :: real

definition EffectiveSize :: "WindowFunction \<Rightarrow> nat" where
  "EffectiveSize w = m_effectiveSize w"

definition ActualSize :: "WindowFunction \<Rightarrow> nat" where
  "ActualSize w = length (m_windowCoefficients w)"

definition CoherentGain :: "WindowFunction \<Rightarrow> real" where
  "CoherentGain w = m_coherentGain w"

definition PowerGain :: "WindowFunction \<Rightarrow> real" where
  "PowerGain w = m_powerGain w"

text \<open>
  \<^verbatim>\<open>ComputeGains()\<close>: the loop \<^verbatim>\<open>for (i = 0; i < size; ++i)\<close> over the first
  \<^verbatim>\<open>EffectiveSize()\<close> coefficients accumulates their sum and their sum of squares.
\<close>

function ComputeGains_loop :: "nat \<Rightarrow> nat \<Rightarrow> WindowFunction \<Rightarrow> WindowFunction" where
  "ComputeGains_loop sz i w =
     (if i < sz
      then ComputeGains_loop sz (i + 1)
             (w\<lparr>m_coherentGain := m_coherentGain w + m_windowCoefficients w ! i,
                m_enbw := m_enbw w + m_windowCoefficients w ! i * m_windowCoefficients w ! i\<rparr>)
      else w)"
  by pat_completeness auto
termination
  by (relation "measure (\<lambda>(sz, i, w). sz - i)") auto

declare ComputeGains_loop.simps [simp del]

definition ComputeGains :: "WindowFunction \<Rightarrow> WindowFunction" where
  "ComputeGains w0 =
     (let size = EffectiveSize w0;
          w1 = ComputeGains_loop size 0 w0;
          enbwDivisor = m_coherentGain w1 * m_coherentGain w1;
          w2 = (if \<bar>enbwDivisor\<bar> > 1 / 10 ^ 9
                then w1\<lparr>m_enbw := (real size * m_enbw w1) / enbwDivisor\<rparr> else w1);
          w3 = w2\<lparr>m_coherentGain := m_coherentGain w2 / real size\<rparr>
      in w3\<lparr>m_powerGain := m_coherentGain w3 * m_coherentGain w3 * m_enbw w3\<rparr>)"

text \<open>
  The initialisation constructor \<^verbatim>\<open>WindowFunction(generator, size, ignoreLastValue)\<close>.
  The parameter \<^verbatim>\<open>size\<close> is \<open>sz\<close> here.
  The member initialisers run in declaration order: the coefficient vector (\<open>sz\<close> ones),
  then \<^verbatim>\<open>m_ignoreLastValue(ignoreLastValue && (size % 2 == 1))\<close>, then
  \<^verbatim>\<open>m_effectiveSize(ignoreLastValue ? m_windowCoefficients.size() - 1
  : m_windowCoefficients.size())\<close>, which reads the constructor's parameter. The
  subtraction is on \<^verbatim>\<open>size_t\<close> and wraps for an empty vector. The gains start at zero.
\<close>

definition WindowFunction_init :: "generator \<Rightarrow> nat \<Rightarrow> bool \<Rightarrow> dsp_error + WindowFunction" where
  "WindowFunction_init g sz ignoreLastValue =
     (let coeffs0 = replicate sz (1::real);
          ignoreLast = (ignoreLastValue \<and> (sz mod 2 = 1));
          effectiveSize = (if ignoreLastValue then (length coeffs0 + 2 ^ 64 - 1) mod 2 ^ 64
                           else length coeffs0)
      in case generate g coeffs0 of
           Inl e \<Rightarrow> Inl e
         | Inr coeffs \<Rightarrow>
             Inr (ComputeGains \<lparr>m_windowCoefficients = coeffs, m_ignoreLastValue = ignoreLast,
                               m_effectiveSize = effectiveSize, m_coherentGain = 0,
                               m_powerGain = 0, m_enbw = 0\<rparr>))"

text \<open>
  Applying the window, \<^verbatim>\<open>operator()(dataFirst, dataLast, resultFirst)\<close>: the input
  length must equal the effective size; \<^verbatim>\<open>std::transform\<close> multiplies the data with the
  leading coefficients. The model returns the values written to the result range.
\<close>

definition WindowFunction_apply :: "WindowFunction \<Rightarrow> real list \<Rightarrow> dsp_error + real list" where
  "WindowFunction_apply w data =
     (let inputLength = length data in
      if \<not> inputLength = m_effectiveSize w then Inl (runtime_error ''invalid data size'')
      else Inr (map (\<lambda>(x, y). x * y) (zip data (m_windowCoefficients w))))"

section \<open>Filter design (\<^verbatim>\<open>dsp_filter.hpp\<close>)\<close>

text \<open>
  \<^verbatim>\<open>FirLowPassFilter(numTaps, cutoffFreqHz, samplingFreqHz, windowGenerator)\<close>, the
  design function the resampler uses. The range-for loop over the coefficient vector
  with the running index \<open>i\<close> is a map over the indices.
\<close>

definition FirLowPassFilter :: "nat \<Rightarrow> real \<Rightarrow> real \<Rightarrow> generator \<Rightarrow> dsp_error + real list" where
  "FirLowPassFilter numTaps cutoffFreqHz samplingFreqHz windowGenerator =
     (if \<not> numTaps > 2 then Inl (runtime_error ''numTaps too small'')
      else if \<not> cutoffFreqHz > 0 then Inl (runtime_error ''cutoffFreqHz <= 0'')
      else if \<not> samplingFreqHz > 0 then Inl (runtime_error ''samplingFreqHz  <= 0'')
      else
        (let availableBandwidthHz = samplingFreqHz / 2 in
         if \<not> cutoffFreqHz \<le> availableBandwidthHz then Inl (runtime_error ''cutoffFreqHz too high'')
         else
           (let normalizedCutoffFreq = cutoffFreqHz / availableBandwidthHz;
                numTapsMinusOneOverTwo = real (numTaps - 1) / 2;
                filterCoeffs =
                  map (\<lambda>i. let arg = real i - numTapsMinusOneOverTwo
                            in normalizedCutoffFreq *
                               Sinc (normalizedCutoffFreq * arg * pi) limitThreshold_default)
                      [0..<numTaps]
            in case WindowFunction_init windowGenerator numTaps False of
                 Inl e \<Rightarrow> Inl e
               | Inr window \<Rightarrow> WindowFunction_apply window filterCoeffs)))"

section \<open>FFT engine (\<^verbatim>\<open>dsp_fft.hpp\<close>)\<close>

subsection \<open>The in-place Cooley-Tukey transform\<close>

text \<open>
  \<^verbatim>\<open>CooleyTukeyFFT(data)\<close> works on \<^verbatim>\<open>uint32_t\<close> indices: the size is truncated by
  \<^verbatim>\<open>static_cast<uint32_t>(data.size())\<close> and the index additions wrap modulo \<open>2 ^ 32\<close>.
  Indices are \<open>nat\<close> with the truncation written out. A result \<open>None\<close> stands for a run
  that has no defined result: a loop that does not terminate, an access
  \<^verbatim>\<open>data[i]\<close> outside the vector, a shift by the width of its operand or a cast of a
  floating-point value outside the range of the integer type.

  The innermost loop \<^verbatim>\<open>for (a = l; a < N; a += n)\<close> applies one butterfly with the
  twiddle factor \<open>T\<close> to the pair \<open>(a, a + k)\<close> of every block.
\<close>

partial_function (option) butterfly_loop ::
  "nat \<Rightarrow> nat \<Rightarrow> nat \<Rightarrow> complex \<Rightarrow> nat \<Rightarrow> complex list \<Rightarrow> complex list option" where
  "butterfly_loop N n k T a data =
     (if a < N then
        (let b = (a + k) mod 2 ^ 32 in
         if a < length data \<and> b < length data then
           (let t = data ! a - data ! b;
                data1 = data[a := data ! a + data ! b];
                data2 = data1[b := t * T]
            in butterfly_loop N n k T ((a + n) mod 2 ^ 32) data2)
         else None)
      else Some data)"

text \<open>The loop \<^verbatim>\<open>for (l = 0; l < k; ++l)\<close>, which advances the twiddle factor.\<close>

function twiddle_loop ::
  "nat \<Rightarrow> nat \<Rightarrow> nat \<Rightarrow> complex \<Rightarrow> complex \<Rightarrow> nat \<Rightarrow> complex list \<Rightarrow> complex list option" where
  "twiddle_loop N n k phiT T l data =
     (if l < k then
        (case butterfly_loop N n k T l data of
           None \<Rightarrow> None
         | Some data' \<Rightarrow> twiddle_loop N n k phiT (T * phiT) (l + 1) data')
      else Some data)"
  by pat_completeness auto
termination
  by (relation "measure (\<lambda>(N, n, k, phiT, T, l, data). k - l)") auto

declare twiddle_loop.simps [simp del]

text \<open>The loop \<^verbatim>\<open>while (k > 1)\<close> over the stages: the block size halves, \<open>phiT\<close> is squared.\<close>

function stage_loop :: "nat \<Rightarrow> nat \<Rightarrow> complex \<Rightarrow> complex list \<Rightarrow> complex list option" where
  "stage_loop N k phiT data =
     (if k > 1 then
        (let n = k;
             k' = drop_bit 1 k;
             phiT' = phiT * phiT;
             T = 1
         in case twiddle_loop N n k' phiT' T 0 data of
              None \<Rightarrow> None
            | Some data' \<Rightarrow> stage_loop N k' phiT' data')
      else Some data)"
  by pat_completeness auto
termination
  by (relation "measure (\<lambda>(N, k, phiT, data). k)") (auto simp: drop_bit_eq_div)

declare stage_loop.simps [simp del]

text \<open>
  The bit reversal of a 32-bit index, shifted down to the \<open>m\<close> bits of the transform:
  the five mask-and-shift assignments to \<open>b\<close> in the body of the decimation loop.
\<close>

definition reverse_bits :: "32 word \<Rightarrow> nat \<Rightarrow> 32 word" where
  "reverse_bits a m =
     (let b0 = a;
          b1 = (drop_bit 1 (b0 AND 0xaaaaaaaa)) OR (push_bit 1 (b0 AND 0x55555555));
          b2 = (drop_bit 2 (b1 AND 0xcccccccc)) OR (push_bit 2 (b1 AND 0x33333333));
          b3 = (drop_bit 4 (b2 AND 0xf0f0f0f0)) OR (push_bit 4 (b2 AND 0x0f0f0f0f));
          b4 = (drop_bit 8 (b3 AND 0xff00ff00)) OR (push_bit 8 (b3 AND 0x00ff00ff))
      in drop_bit (32 - m) ((drop_bit 16 b4) OR (push_bit 16 b4)))"

text \<open>
  The loop \<^verbatim>\<open>for (a = 0; a < N; ++a)\<close> that swaps each index with its reversal. The last
  shift of the reversal is \<^verbatim>\<open>>> (32 - m)\<close> on \<^verbatim>\<open>uint32_t\<close> operands. Its count
  \<open>32 - m\<close> (computed modulo \<open>2 ^ 32\<close>) is a valid shift count, below 32, exactly for
  \<open>1 \<le> m \<le> 32\<close>; for any other \<open>m\<close>, in particular for \<open>m = 0\<close>, the shift has no defined
  result and the model returns \<open>None\<close>.
\<close>

function decimate_loop :: "nat \<Rightarrow> nat \<Rightarrow> nat \<Rightarrow> complex list \<Rightarrow> complex list option" where
  "decimate_loop N m a data =
     (if a < N then
        (if 1 \<le> m \<and> m \<le> 32 then
           (let b = unat (reverse_bits (word_of_nat a) m) in
            if b > a then
              (if a < length data \<and> b < length data
               then decimate_loop N m (a + 1) (data[a := data ! b, b := data ! a])
               else None)
            else decimate_loop N m (a + 1) data)
         else None)
      else Some data)"
  by pat_completeness auto
termination
  by (relation "measure (\<lambda>(N, m, a, data). N - a)") auto

declare decimate_loop.simps [simp del]

text \<open>
  The body of \<^verbatim>\<open>CooleyTukeyFFT\<close>. The number of bits is
  \<^verbatim>\<open>m = static_cast<uint32_t>(std::log2(fN))\<close>: for \<open>N \<ge> 1\<close> the logarithm is not negative
  and the cast truncates it; for \<open>N = 0\<close> (a size that is a multiple of \<open>2 ^ 32\<close>) the
  logarithm is \<open>-\<infinity>\<close>, whose cast has no defined result.
\<close>

definition CooleyTukeyFFT :: "complex list \<Rightarrow> complex list option" where
  "CooleyTukeyFFT data =
     (let N = length data mod 2 ^ 32;
          fN = real N;
          k = N;
          thetaT = pi / fN;
          phiT = Complex (cos thetaT) (sin thetaT)
      in case stage_loop N k phiT data of
           None \<Rightarrow> None
         | Some data' \<Rightarrow>
             (if N = 0 then None
              else (let m = nat \<lfloor>log 2 fN\<rfloor>
                    in decimate_loop N m 0 data')))"

subsection \<open>Forward, inverse, normalisation\<close>

text \<open>
  The in-place operations are \<^verbatim>\<open>void\<close> functions on a vector passed by reference, which
  may throw. The model returns the outcome of the call (\<open>Inl\<close> the exception, \<open>Inr ()\<close> a
  normal return) together with the buffer as the call leaves it.
\<close>

definition Forward :: "complex list \<Rightarrow> ((dsp_error + unit) \<times> complex list) option" where
  "Forward data =
     (if \<not> IsPowerOf2 (length data)
      then Some (Inl (runtime_error ''FFT size not a power of 2''), data)
      else (case CooleyTukeyFFT data of
              None \<Rightarrow> None
            | Some data' \<Rightarrow> Some (Inr (), data')))"

definition Normalise :: "complex list \<Rightarrow> complex list" where
  "Normalise cplxFft = (let N = real (length cplxFft) in map (\<lambda>z. z / complex_of_real N) cplxFft)"

definition Denormalise :: "complex list \<Rightarrow> complex list" where
  "Denormalise cplxFft = (let N = real (length cplxFft) in map (\<lambda>z. z * complex_of_real N) cplxFft)"

text \<open>The conjugation lambda of \<^verbatim>\<open>Inverse\<close>: \<^verbatim>\<open>z.imag(z.imag() * minusOne)\<close>.\<close>

definition conjugate :: "complex list \<Rightarrow> complex list" where
  "conjugate cplxVector = map (\<lambda>z. Complex (Re z) (Im z * (- 1))) cplxVector"

definition Inverse :: "complex list \<Rightarrow> ((dsp_error + unit) \<times> complex list) option" where
  "Inverse cplxFft =
     (if \<not> IsPowerOf2 (length cplxFft)
      then Some (Inl (runtime_error ''FFT size not a power of 2''), cplxFft)
      else (case CooleyTukeyFFT (conjugate cplxFft) of
              None \<Rightarrow> None
            | Some data' \<Rightarrow> Some (Inr (), Normalise (conjugate data'))))"

subsection \<open>Magnitude and power spectra (in place)\<close>

text \<open>
  \<^verbatim>\<open>ToMagnitude(cplxFft, zeroUnused, fullSpectrum)\<close> and
  \<^verbatim>\<open>ToPower(cplxFft, zeroUnused, fullSpectrum)\<close>. Iterators are indices into the vector;
  a loop \<^verbatim>\<open>for (zItr = first; zItr != last; ++zItr)\<close> starts at or before \<open>last\<close>, so its
  condition is \<open>zItr < last\<close>. The two member calls \<^verbatim>\<open>zItr->real(v); zItr->imag(zero)\<close>
  store \<open>Complex v 0\<close>.

  The end iterator is \<^verbatim>\<open>std::next(cplxFft.begin(), static_cast<int32_t>(halfSize))\<close>: its
  offset is the low 32 bits of \<open>halfSize\<close> read as a signed number. A negative offset (from
  \<open>halfSize = 2 ^ 31\<close>) is an iterator before the start of the vector, and a loop that runs
  from \<^verbatim>\<open>begin()\<close> towards it has no defined result: the model returns \<open>None\<close>. A
  non-negative offset is at most \<open>halfSize\<close> and so lies inside the vector.
\<close>

function ToMagnitude_loop :: "nat \<Rightarrow> nat \<Rightarrow> complex list \<Rightarrow> complex list" where
  "ToMagnitude_loop endItr zItr cplxFft =
     (if zItr < endItr then
        (let d1 = (if zItr \<noteq> 0 then cplxFft[zItr := cplxFft ! zItr * 2] else cplxFft);
             magnitude = cmod (d1 ! zItr)
         in ToMagnitude_loop endItr (zItr + 1) (d1[zItr := Complex magnitude 0]))
      else cplxFft)"
  by pat_completeness auto
termination
  by (relation "measure (\<lambda>(endItr, zItr, cplxFft). endItr - zItr)") auto

declare ToMagnitude_loop.simps [simp del]

function ToPower_loop :: "nat \<Rightarrow> nat \<Rightarrow> complex list \<Rightarrow> complex list" where
  "ToPower_loop endItr zItr cplxFft =
     (if zItr < endItr then
        (let power = (Re (cplxFft ! zItr))\<^sup>2 + (Im (cplxFft ! zItr))\<^sup>2
         in ToPower_loop endItr (zItr + 1) (cplxFft[zItr := Complex power 0]))
      else cplxFft)"
  by pat_completeness auto
termination
  by (relation "measure (\<lambda>(endItr, zItr, cplxFft). endItr - zItr)") auto

declare ToPower_loop.simps [simp del]

text \<open>The loop \<^verbatim>\<open>for (zItr = endItr; zItr != cplxFft.end(); ++zItr) *zItr = {zero, zero}\<close>.\<close>

function zeroUnused_loop :: "nat \<Rightarrow> complex list \<Rightarrow> complex list" where
  "zeroUnused_loop zItr cplxFft =
     (if zItr < length cplxFft
      then zeroUnused_loop (zItr + 1) (cplxFft[zItr := Complex 0 0])
      else cplxFft)"
  by pat_completeness auto
termination
  by (relation "measure (\<lambda>(zItr, cplxFft). length cplxFft - zItr)") auto

declare zeroUnused_loop.simps [simp del]

definition ToMagnitude :: "complex list \<Rightarrow> bool \<Rightarrow> bool \<Rightarrow> complex list option" where
  "ToMagnitude cplxFft zeroUnused fullSpectrum =
     (let halfSize = (if fullSpectrum then length cplxFft else length cplxFft div 2);
          offset = sint (word_of_nat halfSize :: 32 word)
      in if offset < 0 then None
         else (let endItr = nat offset;
                   d = ToMagnitude_loop endItr 0 cplxFft
               in Some (if zeroUnused then zeroUnused_loop endItr d else d)))"

definition ToPower :: "complex list \<Rightarrow> bool \<Rightarrow> bool \<Rightarrow> complex list option" where
  "ToPower cplxFft zeroUnused fullSpectrum =
     (let halfSize = (if fullSpectrum then length cplxFft else length cplxFft div 2);
          offset = sint (word_of_nat halfSize :: 32 word)
      in if offset < 0 then None
         else (let endItr = nat offset;
                   d = ToPower_loop endItr 0 cplxFft
               in Some (if zeroUnused then zeroUnused_loop endItr d else d)))"

subsection \<open>FFT convolution\<close>

record FftConvolve =
  m_discreteConvolutionLength :: nat
  m_workspace1 :: "complex list"
  m_workspace2 :: "complex list"

text \<open>The default-constructed object: length 0 and empty workspaces.\<close>

definition FftConvolve_default :: FftConvolve where
  "FftConvolve_default =
     \<lparr>m_discreteConvolutionLength = 0, m_workspace1 = [], m_workspace2 = []\<rparr>"

text \<open>
  The initialisation constructor \<^verbatim>\<open>FftConvolve(signalLength, kernelLength)\<close>. The
  length \<^verbatim>\<open>signalLength + kernelLength - 1\<close> is computed on \<^verbatim>\<open>size_t\<close> and wraps modulo
  \<open>2 ^ 64\<close>. The cast \<^verbatim>\<open>static_cast<size_t>(v)\<close> of a non-negative floating-point value
  truncates, which is \<open>nat \<lfloor>v\<rfloor>\<close>; for a length that wrapped to 0 the logarithm is
  \<open>-\<infinity>\<close> and its cast has no defined result. The shift
  \<^verbatim>\<open>static_cast<size_t>(1) << (powerOf2 + 1)\<close> has no defined result either once the
  shift count reaches the 64 bits of \<^verbatim>\<open>size_t\<close> (from length \<open>2 ^ 63\<close>). In both cases
  the model returns \<open>None\<close>.
\<close>

definition FftConvolve_init :: "nat \<Rightarrow> nat \<Rightarrow> (dsp_error + FftConvolve) option" where
  "FftConvolve_init signalLength kernelLength =
     (if \<not> signalLength > 0 then Some (Inl (runtime_error ''signalLength <= 0''))
      else if \<not> kernelLength > 0 then Some (Inl (runtime_error ''kernelLength <= 0''))
      else
        (let discreteConvolutionLength = (signalLength + kernelLength - 1) mod 2 ^ 64
         in if discreteConvolutionLength = 0 then None
            else
              (let powerOf2 = nat \<lfloor>real_of_int \<lfloor>log 2 (real discreteConvolutionLength)\<rfloor> + 0.5\<rfloor>
               in if \<not> powerOf2 + 1 < 64 then None
                  else
                    (let workspaceLength = push_bit (powerOf2 + 1) (1::nat)
                     in Some (Inr \<lparr>m_discreteConvolutionLength = discreteConvolutionLength,
                                    m_workspace1 = replicate workspaceLength 0,
                                    m_workspace2 = replicate workspaceLength 0\<rparr>)))))"




section \<open>Filter application (\<^verbatim>\<open>dsp_filter.hpp\<close>)\<close>

record FilterHolder =
  m_signalLength :: nat
  m_filterCoeffs :: "real list"
  m_useFastConvolution :: bool
  m_fftConvolve :: FftConvolve
  m_filteredSignal :: "real list"

text \<open>
  The initialisation constructor \<^verbatim>\<open>FilterHolder(signalLength, filterCoeffs,
  useFastConvolution)\<close>. The workspace \<^verbatim>\<open>m_filteredSignal\<close> is created with
  \<^verbatim>\<open>signalLength + m_filterCoeffs.size() - 1\<close> zeros by a member initialiser, before the
  checks; the sum is a \<^verbatim>\<open>size_t\<close> and wraps modulo \<open>2 ^ 64\<close>. Memory is not modelled:
  every allocation succeeds. (For \<open>signalLength = 0\<close> and no coefficients the sum wraps to
  \<open>2 ^ 64 - 1\<close> and the allocation itself fails; the model reports the first failed check,
  and the construction fails either way.) A construction of the FFT convolution object
  without defined result leaves this constructor without one.
\<close>

definition FilterHolder_init ::
  "nat \<Rightarrow> real list \<Rightarrow> bool \<Rightarrow> (dsp_error + FilterHolder) option" where
  "FilterHolder_init signalLength filterCoeffs useFastConvolution =
     (if \<not> signalLength > 2 then Some (Inl (runtime_error ''signalLength is too small''))
      else if \<not> filterCoeffs \<noteq> [] then Some (Inl (runtime_error ''filterCoeffs is empty''))
      else
        (let fh = \<lparr>m_signalLength = signalLength, m_filterCoeffs = filterCoeffs,
                   m_useFastConvolution = useFastConvolution,
                   m_fftConvolve = FftConvolve_default,
                   m_filteredSignal =
                     replicate ((signalLength + length filterCoeffs - 1) mod 2 ^ 64) 0\<rparr>
         in if useFastConvolution
            then (case FftConvolve_init signalLength (length filterCoeffs) of
                    None \<Rightarrow> None
                  | Some (Inl e) \<Rightarrow> Some (Inl e)
                  | Some (Inr fc) \<Rightarrow> Some (Inr (fh\<lparr>m_fftConvolve := fc\<rparr>)))
            else Some (Inr fh)))"


section \<open>Resampler (\<^verbatim>\<open>dsp_resample.hpp\<close>)\<close>

subsection \<open>Rational approximation of a resampling ratio\<close>

text \<open>The largest finite \<^verbatim>\<open>double\<close>, \<^verbatim>\<open>std::numeric_limits<double>::max()\<close>.\<close>

definition DBL_MAX :: real where
  "DBL_MAX = (2 ^ 53 - 1) * 2 ^ 971"

text \<open>
  The loop \<^verbatim>\<open>while (true)\<close> of \<^verbatim>\<open>ComputeResampleFactors\<close>, on the variables
  \<open>n_a\<close>, \<open>d_a\<close>, \<open>n_b\<close>, \<open>d_b\<close>, \<open>error\<close> and \<open>factors\<close>. Its only exit is the \<^verbatim>\<open>break\<close>; a run that
  never reaches it has the value \<open>None\<close>. The \<^verbatim>\<open>size_t\<close> values are \<open>nat\<close>: numerators
  and denominators that pass the bound test stay within the bounds.
\<close>

partial_function (option) ComputeResampleFactors_loop ::
  "real \<Rightarrow> nat \<Rightarrow> nat \<Rightarrow> nat \<Rightarrow> nat \<Rightarrow> nat \<Rightarrow> nat \<Rightarrow> real \<Rightarrow> nat \<times> nat \<Rightarrow> (nat \<times> nat) option" where
  "ComputeResampleFactors_loop requiredResampleFactor maxNumerator maxDenominator
       n_a d_a n_b d_b error factors =
     (let n_m0 = n_a + n_b;
          d_m0 = d_a + d_b;
          g = Gcd_dsp n_m0 d_m0;
          n_m = (if g > 1 then n_m0 div g else n_m0);
          d_m = (if g > 1 then d_m0 div g else d_m0)
      in if (n_m > maxNumerator) \<or> (d_m > maxDenominator) then Some factors
         else
           (let m = real n_m / real d_m;
                absDiff = \<bar>m - requiredResampleFactor\<bar>;
                error' = (if absDiff < error then absDiff else error);
                factors' = (if absDiff < error then (n_m, d_m) else factors)
            in if m \<le> requiredResampleFactor
               then ComputeResampleFactors_loop requiredResampleFactor maxNumerator
                      maxDenominator n_m d_m n_b d_b error' factors'
               else ComputeResampleFactors_loop requiredResampleFactor maxNumerator
                      maxDenominator n_a d_a n_m d_m error' factors'))"

definition ComputeResampleFactors :: "real \<Rightarrow> nat \<Rightarrow> nat \<Rightarrow> (dsp_error + nat \<times> nat) option" where
  "ComputeResampleFactors requiredResampleFactor maxNumerator maxDenominator =
     (if \<not> requiredResampleFactor > 0 then Some (Inl (runtime_error ''requiredResampleFactor <= 0''))
      else
        (let factors = (0, 0);
             n_a = nat \<lfloor>real_of_int \<lfloor>requiredResampleFactor\<rfloor> + 0.5\<rfloor>;
             d_a = 1;
             n_b = nat \<lfloor>real_of_int \<lceil>requiredResampleFactor\<rceil> + 0.5\<rfloor>;
             d_b = 1;
             error = DBL_MAX
         in map_option Inr
              (ComputeResampleFactors_loop requiredResampleFactor maxNumerator maxDenominator
                 n_a d_a n_b d_b error factors)))"

subsection \<open>The resampler object\<close>

record Resample =
  m_signalLength_r :: nat
  m_upsampleFactor :: nat
  m_downsampleFactor :: nat
  m_resampledLength :: nat
  m_filterHolder :: FilterHolder
  m_workspaceBuffer :: "real list"

text \<open>
  \<^verbatim>\<open>ComputeResampledSize()\<close>. The product \<^verbatim>\<open>m_upsampleFactor * m_signalLength\<close> is a
  \<^verbatim>\<open>size_t\<close> product and wraps modulo \<open>2 ^ 64\<close>; the quotient is a \<^verbatim>\<open>double\<close>.
\<close>

definition ComputeResampledSize :: "Resample \<Rightarrow> Resample" where
  "ComputeResampledSize r =
     (let upsampleLength = (m_upsampleFactor r * m_signalLength_r r) mod 2 ^ 64
      in r\<lparr>m_resampledLength :=
             nat \<lfloor>real_of_int \<lfloor>real upsampleLength / real (m_downsampleFactor r)\<rfloor> + 0.5\<rfloor>\<rparr>)"

definition ResizeWorkspace :: "Resample \<Rightarrow> Resample" where
  "ResizeWorkspace r =
     (if m_upsampleFactor r > 1
      then (let upsampleLength = (m_upsampleFactor r * m_signalLength_r r) mod 2 ^ 64
            in r\<lparr>m_workspaceBuffer := replicate upsampleLength 0\<rparr>)
      else r\<lparr>m_workspaceBuffer := replicate (m_signalLength_r r) 0\<rparr>)"

definition ResampledSize :: "Resample \<Rightarrow> nat" where
  "ResampledSize r = m_resampledLength r"

text \<open>
  The initialisation constructor \<^verbatim>\<open>Resample(signalLength, upsampleFactor,
  downsampleFactor, samplingFreqHz, maxCutoffFreqHz, numFilterTaps, kaiserWindowBeta,
  useFastConvolution)\<close>. The members not named in the initialiser list start from their
  default values (resampled length 0, a default filter holder, an empty workspace).
\<close>

definition FilterHolder_default :: FilterHolder where
  "FilterHolder_default =
     \<lparr>m_signalLength = 0, m_filterCoeffs = [], m_useFastConvolution = True,
      m_fftConvolve = FftConvolve_default, m_filteredSignal = []\<rparr>"

definition Resample_init ::
  "nat \<Rightarrow> nat \<Rightarrow> nat \<Rightarrow> real \<Rightarrow> real \<Rightarrow> nat \<Rightarrow> real \<Rightarrow> bool
    \<Rightarrow> (dsp_error + Resample) option" where
  "Resample_init signalLength upsampleFactor downsampleFactor samplingFreqHz maxCutoffFreqHz
       numFilterTaps kaiserWindowBeta useFastConvolution =
     (let r0 = \<lparr>m_signalLength_r = signalLength, m_upsampleFactor = upsampleFactor,
                m_downsampleFactor = downsampleFactor, m_resampledLength = 0,
                m_filterHolder = FilterHolder_default, m_workspaceBuffer = []\<rparr>
      in if \<not> m_signalLength_r r0 > 0 then Some (Inl (runtime_error ''too few signal samples''))
         else if \<not> m_upsampleFactor r0 > 0
         then Some (Inl (runtime_error ''invalid upsample factor''))
         else if \<not> m_downsampleFactor r0 > 0
         then Some (Inl (runtime_error ''invalid downsample factor''))
         else
           (let r1 = ResizeWorkspace (ComputeResampledSize r0);
                upsampleLength = (m_upsampleFactor r1 * m_signalLength_r r1) mod 2 ^ 64;
                upsampledFreqHz = samplingFreqHz * real (m_upsampleFactor r1);
                resampledFreqHz = samplingFreqHz * real upsampleFactor / real downsampleFactor;
                cutoffFreqHz = min samplingFreqHz resampledFreqHz / 2;
                maxCutoffFreqHz' = (if upsampleFactor > downsampleFactor
                                    then min cutoffFreqHz maxCutoffFreqHz
                                    else max cutoffFreqHz maxCutoffFreqHz)
            in case KaiserGenerator_init kaiserWindowBeta of
                 Inl e \<Rightarrow> Some (Inl e)
               | Inr kaiser \<Rightarrow>
                   (case FirLowPassFilter numFilterTaps maxCutoffFreqHz' upsampledFreqHz kaiser of
                      Inl e \<Rightarrow> Some (Inl e)
                    | Inr filterCoeffs \<Rightarrow>
                        (case FilterHolder_init upsampleLength filterCoeffs useFastConvolution of
                           None \<Rightarrow> None
                         | Some (Inl e) \<Rightarrow> Some (Inl e)
                         | Some (Inr fh) \<Rightarrow> Some (Inr (r1\<lparr>m_filterHolder := fh\<rparr>))))))"

section \<open>Specification functions for the transform\<close>

text \<open>
  The functions of this section are not translations of source code. They describe what
  the loops of \<^verbatim>\<open>CooleyTukeyFFT\<close> compute and are used to state the loop invariants.

  The primitive \<open>n\<close>-th root of unity of the transform, \<open>exp(2 \<pi> i / n)\<close>: the initial
  twiddle factor \<open>(cos(\<pi>/N), sin(\<pi>/N))\<close> is squared before its first use.
\<close>

definition root_of_unity :: "nat \<Rightarrow> complex" where
  "root_of_unity n = cis (2 * pi / real n)"

text \<open>The discrete Fourier transform with that root: bin \<open>p\<close> is the sum of \<open>x[j] * w ^ (j * p)\<close>.\<close>

definition dft :: "complex list \<Rightarrow> complex list" where
  "dft x = map (\<lambda>p. \<Sum>j<length x. x ! j * root_of_unity (length x) ^ (j * p)) [0..<length x]"

text \<open>The reversal of the lowest \<open>m\<close> bits of an index.\<close>

fun bitrev :: "nat \<Rightarrow> nat \<Rightarrow> nat" where
  "bitrev 0 r = 0"
| "bitrev (Suc m) r = 2 * bitrev m (r mod 2 ^ m) + r div 2 ^ m"

text \<open>
  One stage with half block size \<open>k\<close> and twiddle base \<open>w\<close>, applied only to the positions
  whose offset within the half block is below \<open>l\<close>: the state of the vector after \<open>l\<close> rounds
  of the loop over \<open>l\<close>. With \<open>l = k\<close> it is the whole stage.
\<close>

definition stage_upto :: "nat \<Rightarrow> complex \<Rightarrow> nat \<Rightarrow> complex list \<Rightarrow> complex list" where
  "stage_upto k w l d =
     map (\<lambda>p. if p mod k < l
              then (if p mod (2 * k) < k then d ! p + d ! (p + k)
                    else (d ! (p - k) - d ! p) * w ^ (p mod k))
              else d ! p) [0..<length d]"

text \<open>
  The butterflies with twiddle factor \<open>T\<close> at offset \<open>l\<close>, applied only to the first \<open>q\<close>
  blocks: the state of the vector after \<open>q\<close> rounds of the innermost loop.
\<close>

definition butterfly_upto :: "nat \<Rightarrow> complex \<Rightarrow> nat \<Rightarrow> nat \<Rightarrow> complex list \<Rightarrow> complex list" where
  "butterfly_upto k T l q d =
     map (\<lambda>p. if p mod k = l \<and> p div (2 * k) < q
              then (if p mod (2 * k) < k then d ! p + d ! (p + k)
                    else (d ! (p - k) - d ! p) * T)
              else d ! p) [0..<length d]"

text \<open>The buffer after the decimation loop has visited the indices below \<open>a\<close>.\<close>

definition decimate_upto :: "nat \<Rightarrow> nat \<Rightarrow> complex list \<Rightarrow> complex list" where
  "decimate_upto m a d =
     map (\<lambda>p. if p < a \<or> bitrev m p < a then d ! bitrev m p else d ! p) [0..<length d]"
section \<open>Verification: discrete convolution\<close>

lemma Convolve_inner_foldl:
  "Convolve_inner x h k kSub kMax acc
     = foldl (\<lambda>acc j. acc + x ! j * h ! (k - j)) acc [kSub..<Suc kMax]"
proof (induction x h k kSub kMax acc rule: Convolve_inner.induct)
  case (1 x h k kSub kMax acc)
  show ?case
  proof (cases "kSub \<le> kMax")
    case True
    then have "[kSub..<Suc kMax] = kSub # [kSub + 1..<Suc kMax]"
      by (simp add: upt_conv_Cons)
    with True 1 show ?thesis
      by (subst Convolve_inner.simps) simp
  next
    case False
    then show ?thesis by (subst Convolve_inner.simps) simp
  qed
qed

lemma Convolve_outer_map:
  "0 < length h \<Longrightarrow> K < 2 ^ 31 \<Longrightarrow>
     Convolve_outer x h K k out = Some (out @ map (Convolve_value x h) [k..<K])"
proof (induction x h K k out rule: Convolve_outer.induct)
  case (1 x h K k out)
  show ?case
  proof (cases "k < K")
    case True
    have b1: "(if length h - 1 \<le> k then k - (length h - 1) else 0) = k + 1 - length h"
      using \<open>0 < length h\<close> by arith
    have b2: "(if k < length x - 1 then k else length x - 1) = min k (length x - 1)"
      by arith
    have v: "Convolve_inner x h k (if length h - 1 \<le> k then k - (length h - 1) else 0)
               (if k < length x - 1 then k else length x - 1) 0 = Convolve_value x h k"
      unfolding b1 b2 Convolve_value_def by (simp only: Convolve_inner_foldl)
    have next_ok: "k + 1 < 2 ^ 31" using True "1.prems"(2) by linarith
    have "Convolve_outer x h K k out
            = Convolve_outer x h K (k + 1) (out @ [Convolve_value x h k])"
      using True next_ok
      by (subst Convolve_outer.simps) (simp only: Let_def v if_True)
    also have "\<dots> = Some ((out @ [Convolve_value x h k]) @ map (Convolve_value x h) [k + 1..<K])"
      using "1.IH" [OF True refl refl refl refl refl next_ok] "1.prems" by (simp only: v)
    finally show ?thesis
      using True by (simp add: upt_conv_Cons)
  next
    case False
    then show ?thesis by (subst Convolve_outer.simps) simp
  qed
qed

lemma Convolve_outer_overflow:
  "2 ^ 31 \<le> K \<Longrightarrow> k < 2 ^ 31 \<Longrightarrow> Convolve_outer x h K k out = None"
proof (induction x h K k out rule: Convolve_outer.induct)
  case (1 x h K k out)
  have lt: "k < K" using "1.prems" by linarith
  show ?case
  proof (cases "k + 1 < 2 ^ 31")
    case False
    with lt show ?thesis by (subst Convolve_outer.simps) (simp add: Let_def)
  next
    case True
    have "Convolve_outer x h K (k + 1)
            (out @ [Convolve_inner x h k (if length h - 1 \<le> k then k - (length h - 1) else 0)
                      (if k < length x - 1 then k else length x - 1) 0]) = None"
      using "1.IH" [OF lt refl refl refl refl refl True "1.prems"(1) True] .
    with lt True show ?thesis by (subst Convolve_outer.simps) (simp add: Let_def)
  qed
qed

lemma Convolve_eq_map:
  assumes "0 < length x" "0 < length h" "length x + length h - 1 < 2 ^ 31"
  shows "Convolve x h = Some (Inr (map (Convolve_value x h) [0..<length x + length h - 1]))"
  using assms by (simp add: Convolve_def Let_def Convolve_outer_map)

lemma Convolve_int_overflow:
  assumes "0 < length x" "0 < length h" "2 ^ 31 \<le> length x + length h - 1"
  shows "Convolve x h = None"
  using assms by (simp add: Convolve_def Let_def Convolve_outer_overflow)

lemma Convolve_example:
  "Convolve [1, 2, 3, 4, 5, 6, 7, 8, 9, 10 :: real] [1, 1, 1]
     = Some (Inr [1, 3, 6, 9, 12, 15, 18, 21, 24, 27, 19, 10])"
  by (simp add: Convolve_eq_map Convolve_value_def upt_rec nth_Cons')

lemma Convolve_example_swapped:
  "Convolve [1, 1, 1] [1, 2, 3, 4, 5, 6, 7, 8, 9, 10 :: real]
     = Some (Inr [1, 3, 6, 9, 12, 15, 18, 21, 24, 27, 19, 10])"
  by (simp add: Convolve_eq_map Convolve_value_def upt_rec nth_Cons')

text \<open>
  Claim C3 (counterexample). The claim promises \<open>M + N - 1\<close> output values for every pair of
  non-empty operands. The counter of the outer loop is an \<^verbatim>\<open>int\<close>: for \<open>2 ^ 31\<close> samples and
  a kernel of one coefficient it has to count to \<open>2 ^ 31\<close>, which the type does not hold, and
  the call has no defined result.
\<close>

theorem Convolve_overflows_int_counter:
  "replicate (2 ^ 31) (1 :: real) \<noteq> [] \<and> [1 :: real] \<noteq> [] \<and>
   Convolve (replicate (2 ^ 31) (1 :: real)) [1] = None"
  using Convolve_int_overflow [of "replicate (2 ^ 31) (1 :: real)" "[1]"] by simp

text \<open>
  Claim C3 (amended). For non-empty \<open>x\<close> (length \<open>M\<close>) and \<open>h\<close> (length \<open>N\<close>) with
  \<open>M + N - 1 < 2 ^ 31\<close> (the range of the loop counter), \<open>Convolve x h\<close> returns normally and
  writes exactly \<open>M + N - 1\<close> values; output \<open>k\<close> is the sum of \<open>x[j] * h[k - j]\<close> over
  \<open>max(0, k - N + 1) \<le> j \<le> min(k, M - 1)\<close>, the products added to zero in increasing order
  of \<open>j\<close>. This holds for any sample type, with no law assumed of its addition and
  multiplication. \<open>Convolve [1..10] [1, 1, 1]\<close> is
  \<open>[1, 3, 6, 9, 12, 15, 18, 21, 24, 27, 19, 10]\<close>, and swapping the two operands of this
  example gives the same result (all its sums are small integers).
\<close>

theorem Convolve_correct:
  fixes x h :: "'a::{zero,plus,times} list"
  shows "(x \<noteq> [] \<and> h \<noteq> [] \<and> length x + length h - 1 < 2 ^ 31 \<longrightarrow>
           (\<exists>y. Convolve x h = Some (Inr y) \<and> length y = length x + length h - 1 \<and>
                (\<forall>k < length x + length h - 1.
                    y ! k = foldl (\<lambda>acc j. acc + x ! j * h ! (k - j)) 0
                              [k + 1 - length h..<Suc (min k (length x - 1))]))) \<and>
         Convolve [1, 2, 3, 4, 5, 6, 7, 8, 9, 10 :: real] [1, 1, 1]
           = Some (Inr [1, 3, 6, 9, 12, 15, 18, 21, 24, 27, 19, 10]) \<and>
         Convolve [1, 1, 1] [1, 2, 3, 4, 5, 6, 7, 8, 9, 10 :: real]
           = Some (Inr [1, 3, 6, 9, 12, 15, 18, 21, 24, 27, 19, 10])"
proof (intro conjI impI)
  assume nonempty: "x \<noteq> [] \<and> h \<noteq> [] \<and> length x + length h - 1 < 2 ^ 31"
  then have pos: "0 < length x" "0 < length h" and small: "length x + length h - 1 < 2 ^ 31"
    by simp_all
  let ?K = "length x + length h - 1"
  let ?y = "map (Convolve_value x h) [0..<?K]"
  have xh: "Convolve x h = Some (Inr ?y)"
    by (rule Convolve_eq_map [OF pos small])
  have "\<forall>k < ?K. ?y ! k = foldl (\<lambda>acc j. acc + x ! j * h ! (k - j)) 0
                              [k + 1 - length h..<Suc (min k (length x - 1))]"
    by (simp add: Convolve_value_def)
  with xh show "\<exists>y. Convolve x h = Some (Inr y) \<and> length y = ?K \<and>
                (\<forall>k < ?K. y ! k = foldl (\<lambda>acc j. acc + x ! j * h ! (k - j)) 0
                              [k + 1 - length h..<Suc (min k (length x - 1))])"
    by (intro exI [of _ ?y]) simp
qed (rule Convolve_example, rule Convolve_example_swapped)

theorem Convolve_correct_witness:
  "[2, 5 :: int] \<noteq> [] \<and> [3 :: int] \<noteq> [] \<and>
   length [2, 5 :: int] + length [3 :: int] - 1 < 2 ^ 31 \<and>
   (\<exists>y. Convolve [2, 5 :: int] [3] = Some (Inr y) \<and>
        length y = length [2, 5 :: int] + length [3 :: int] - 1 \<and>
        (\<forall>k < length [2, 5 :: int] + length [3 :: int] - 1.
            y ! k = foldl (\<lambda>acc j. acc + [2, 5] ! j * [3] ! (k - j)) 0
                      [k + 1 - length [3 :: int]..<Suc (min k (length [2, 5 :: int] - 1))]))"
  using Convolve_correct [of "[2, 5 :: int]" "[3]"] by simp

section \<open>Verification: window generation\<close>

lemma EvaluateCoefficient_not_error: "\<not> isl (EvaluateCoefficient g n s)"
  by (cases g) (simp_all add: EvaluateFlatTopCoefficient_def Let_def)

lemma EvaluateCoefficient_total: "\<exists>c. EvaluateCoefficient g n s = Inr c"
  using EvaluateCoefficient_not_error [of g n s] by (cases "EvaluateCoefficient g n s") simp_all

lemma WindowGenerator_loop_symmetric:
  assumes "\<forall>a b. \<exists>c. evalCoeff a b = Inr c"
    and "length w = sz" and "n \<le> halfSize" and "2 * halfSize \<le> sz"
    and "nRev = sz - 1 - n"
    and "\<forall>i<n. w ! i = w ! (sz - 1 - i)"
  shows "\<exists>w'. WindowGenerator_loop evalCoeff s halfSize n nRev w = Inr w' \<and> length w' = sz \<and>
              (\<forall>i<halfSize. w' ! i = w' ! (sz - 1 - i))"
  using assms
proof (induction evalCoeff s halfSize n nRev w rule: WindowGenerator_loop.induct)
  case (1 evalCoeff s halfSize n nRev w)
  show ?case
  proof (cases "n < halfSize")
    case False
    with "1.prems" have "n = halfSize" by simp
    with "1.prems" False show ?thesis by (subst WindowGenerator_loop.simps) simp
  next
    case True
    obtain c where c: "evalCoeff (real n) s = Inr c"
      using "1.prems"(1) by blast
    let ?w2 = "w[n := c, nRev := c]"
    have n_lt: "n < sz" "nRev < sz" "n < nRev"
      using True "1.prems" by linarith+
    have w1n: "w[n := c] ! n = c"
      using n_lt "1.prems" by simp
    have sym: "\<forall>i<n + 1. ?w2 ! i = ?w2 ! (sz - 1 - i)"
    proof (intro allI impI)
      fix i assume i: "i < n + 1"
      show "?w2 ! i = ?w2 ! (sz - 1 - i)"
      proof (cases "i = n")
        case True
        then show ?thesis
          using n_lt "1.prems" by simp
      next
        case False
        with i have "i < n" by simp
        then have ne: "i \<noteq> n" "i \<noteq> nRev" "sz - 1 - i \<noteq> n" "sz - 1 - i \<noteq> nRev"
          using n_lt "1.prems" by linarith+
        from \<open>i < n\<close> "1.prems" have "w ! i = w ! (sz - 1 - i)" by blast
        with ne show ?thesis by simp
      qed
    qed
    have ih: "\<exists>w'. WindowGenerator_loop evalCoeff s halfSize (n + 1) (nRev - 1) ?w2 = Inr w' \<and>
                length w' = sz \<and> (\<forall>i<halfSize. w' ! i = w' ! (sz - 1 - i))"
    proof (rule "1.IH" [OF True c refl, of ?w2])
      show "\<forall>a b. \<exists>c. evalCoeff a b = Inr c" by (rule "1.prems"(1))
      show "?w2 = w[n := c, nRev := w[n := c] ! n]" by (simp only: w1n)
      show "length ?w2 = sz" using "1.prems" by simp
      show "n + 1 \<le> halfSize" using True by simp
      show "2 * halfSize \<le> sz" using "1.prems" by simp
      show "nRev - 1 = sz - 1 - (n + 1)" using "1.prems" by simp
      show "\<forall>i<n + 1. ?w2 ! i = ?w2 ! (sz - 1 - i)" by (rule sym)
    qed
    have "WindowGenerator_loop evalCoeff s halfSize n nRev w
            = WindowGenerator_loop evalCoeff s halfSize (n + 1) (nRev - 1) ?w2"
      using True c by (subst WindowGenerator_loop.simps) (simp only: if_True sum.case Let_def w1n)
    with ih show ?thesis by simp
  qed
qed


lemma WindowGenerator_symmetric:
  assumes total: "\<forall>a b. \<exists>c. evalCoeff a b = Inr c" and len: "length w = N" and N: "2 \<le> N"
  shows "\<exists>cs. WindowGenerator w evalCoeff = Inr cs \<and> length cs = N \<and>
              (\<forall>n<N. cs ! n = cs ! (N - 1 - n))"
proof -
  let ?h = "N div 2"
  have h2: "2 * ?h \<le> N" by simp
  obtain w' where w': "WindowGenerator_loop evalCoeff (real (N - 1)) ?h 0 (N - 1) w = Inr w'"
      "length w' = N" "\<forall>i<?h. w' ! i = w' ! (N - 1 - i)"
    using WindowGenerator_loop_symmetric [OF total len _ h2, of 0 "N - 1" "real (N - 1)"]
    by auto
  have mirror: "cs ! n = cs ! (N - 1 - n)"
    if half: "\<forall>i<?h. cs ! i = cs ! (N - 1 - i)" and n: "n < N" for cs :: "real list" and n
  proof (cases "n < ?h")
    case True
    with half show ?thesis by blast
  next
    case False
    show ?thesis
    proof (cases "N - 1 - n < ?h")
      case True
      with half have "cs ! (N - 1 - n) = cs ! (N - 1 - (N - 1 - n))" by blast
      moreover have "N - 1 - (N - 1 - n) = n" using n by simp
      ultimately show ?thesis by simp
    next
      case False
      with \<open>\<not> n < ?h\<close> n have "N - 1 - n = n" by linarith
      then show ?thesis by simp
    qed
  qed
  show ?thesis
  proof (cases "N mod 2 = 1")
    case False
    then have "WindowGenerator w evalCoeff = Inr w'"
      using len N w'(1) by (simp add: WindowGenerator_def Let_def drop_bit_eq_div)
    moreover have "\<forall>n<N. w' ! n = w' ! (N - 1 - n)"
      using mirror [OF w'(3)] by blast
    ultimately show ?thesis using w'(2) by blast
  next
    case True
    obtain c where c: "evalCoeff (real ?h) (real (N - 1)) = Inr c"
      using total by blast
    have eq: "WindowGenerator w evalCoeff = Inr (w'[?h := c])"
      using True len N w'(1) c
      by (simp add: WindowGenerator_def Let_def drop_bit_eq_div)
    have half: "\<forall>i<?h. w'[?h := c] ! i = w'[?h := c] ! (N - 1 - i)"
    proof (intro allI impI)
      fix i assume i: "i < ?h"
      then have "i \<noteq> ?h" "N - 1 - i \<noteq> ?h" using True by presburger+
      with w'(3) i show "w'[?h := c] ! i = w'[?h := c] ! (N - 1 - i)" by simp
    qed
    have "\<forall>n<N. w'[?h := c] ! n = w'[?h := c] ! (N - 1 - n)"
      using mirror [OF half] by blast
    moreover have "length (w'[?h := c]) = N"
      using w'(2) by simp
    ultimately show ?thesis using eq by blast
  qed
qed

lemma generate_symmetric:
  assumes "length w = N" and "2 \<le> N"
  shows "\<exists>cs. generate g w = Inr cs \<and> length cs = N \<and> (\<forall>n<N. cs ! n = cs ! (N - 1 - n))"
proof (cases "g = RectangleGenerator")
  case True
  with assms show ?thesis by (simp add: generate_def Let_def)
next
  case False
  have "\<forall>a b. \<exists>c. EvaluateCoefficient g a b = Inr c"
    by (simp add: EvaluateCoefficient_total)
  from WindowGenerator_symmetric [OF this assms]
  have sym: "\<exists>cs. WindowGenerator w (EvaluateCoefficient g) = Inr cs \<and> length cs = N \<and>
                 (\<forall>n<N. cs ! n = cs ! (N - 1 - n))" .
  have "generate g w = WindowGenerator w (EvaluateCoefficient g)"
    using False by (cases g) (simp_all add: generate_def)
  with sym show ?thesis by (simp only:)
qed

text \<open>
  Claim C9. For every generator of the family, every window size \<open>N \<ge> 2\<close> and every
  pre-sized vector \<open>w\<close> of \<open>N\<close> values handed to the generator, generation succeeds and the
  coefficient sequence is symmetric: coefficient \<open>n\<close> equals coefficient \<open>N - 1 - n\<close> for all
  \<open>0 \<le> n \<le> N - 1\<close>, whatever the vector held before. The equality is between the stored
  values themselves (the second half is a copy of the first), whatever the evaluator
  computes.
\<close>

theorem window_coefficients_symmetric:
  "2 \<le> N \<Longrightarrow> length w = N \<Longrightarrow>
     \<exists>cs. generate g w = Inr cs \<and> length cs = N \<and>
          (\<forall>n. n \<le> N - 1 \<longrightarrow> cs ! n = cs ! (N - 1 - n))"
proof -
  assume N: "2 \<le> N" and w: "length w = N"
  obtain cs where cs: "generate g w = Inr cs" "length cs = N"
      "\<forall>n<N. cs ! n = cs ! (N - 1 - n)"
    using generate_symmetric [OF w N, of g] by auto
  have "\<forall>n. n \<le> N - 1 \<longrightarrow> cs ! n = cs ! (N - 1 - n)"
  proof (intro allI impI)
    fix n assume "n \<le> N - 1"
    with N have "n < N" by linarith
    with cs(3) show "cs ! n = cs ! (N - 1 - n)" by blast
  qed
  with cs show ?thesis by blast
qed

theorem window_coefficients_symmetric_witness:
  "(2::nat) \<le> 3 \<and> length [5, 7, 9 :: real] = 3 \<and>
   (\<exists>cs. generate BartlettGenerator [5, 7, 9] = Inr cs \<and> length cs = 3 \<and>
         (\<forall>n. n \<le> 3 - 1 \<longrightarrow> cs ! n = cs ! (3 - 1 - n)))"
  using window_coefficients_symmetric [of 3 "[5, 7, 9]" BartlettGenerator] by simp

section \<open>Verification: the window object\<close>

lemma WindowGenerator_loop_step:
  "n < halfSize \<Longrightarrow>
   WindowGenerator_loop evalCoeff s halfSize n nRev w
     = (case evalCoeff (real n) s of
          Inl e \<Rightarrow> Inl e
        | Inr c \<Rightarrow> WindowGenerator_loop evalCoeff s halfSize (n + 1) (nRev - 1)
                     (w[n := c, nRev := w[n := c] ! n]))"
  by (subst WindowGenerator_loop.simps) (simp add: Let_def split: sum.splits)

lemma WindowGenerator_loop_done:
  "\<not> n < halfSize \<Longrightarrow> WindowGenerator_loop evalCoeff s halfSize n nRev w = Inr w"
  by (subst WindowGenerator_loop.simps) simp

lemma update4:
  "[a, b, c, d][0 := x] = [x, b, c, d]" "[a, b, c, d][1 := x] = [a, x, c, d]"
  "[a, b, c, d][2 := x] = [a, b, x, d]" "[a, b, c, d][3 := x] = [a, b, c, x]"
  "[a, b, c, d] ! 0 = a" "[a, b, c, d] ! 1 = b" "[a, b, c, d] ! 2 = c" "[a, b, c, d] ! 3 = d"
  "replicate 4 a = [a, a, a, a]"
  by (simp_all add: eval_nat_numeral)

lemma Bartlett4: "generate BartlettGenerator [1, 1, 1, 1] = Inr [0, 2 / 3, 2 / 3, 0]"
  by (simp add: generate_def WindowGenerator_def Let_def drop_bit_eq_div update4
      WindowGenerator_loop_step WindowGenerator_loop_done
     )


lemma ComputeGains_loop_step:
  "i < sz \<Longrightarrow>
   ComputeGains_loop sz i w = ComputeGains_loop sz (i + 1)
             (w\<lparr>m_coherentGain := m_coherentGain w + m_windowCoefficients w ! i,
                m_enbw := m_enbw w + m_windowCoefficients w ! i * m_windowCoefficients w ! i\<rparr>)"
  by (subst ComputeGains_loop.simps) simp

lemma ComputeGains_loop_done:
  "\<not> i < sz \<Longrightarrow> ComputeGains_loop sz i w = w"
  by (subst ComputeGains_loop.simps) simp

text \<open>
  Claim C7 says that with \<open>ignoreLastValue = true\<close> the last coefficient is left out only for
  an odd size, and that an even size keeps the effective size equal to the size. The
  constructor computes the flag \<^verbatim>\<open>m_ignoreLastValue\<close> with the parity test, but derives
  \<^verbatim>\<open>m_effectiveSize\<close> from the untested parameter. Evaluated at the even size 4 with a
  Bartlett window, whose coefficients are \<open>0, 2/3, 2/3, 0\<close>: the flag is false, yet the
  effective size is 3 and the gains are those of the first three coefficients (coherent
  gain \<open>(4/3) / 3 = 4/9\<close>; all four coefficients would give \<open>(4/3) / 4 = 1/3\<close>).
\<close>

theorem WindowFunction_even_size_ignores_last:
  "WindowFunction_init BartlettGenerator 4 True =
     Inr \<lparr>m_windowCoefficients = [0, 2 / 3, 2 / 3, 0], m_ignoreLastValue = False,
          m_effectiveSize = 3, m_coherentGain = 4 / 9, m_powerGain = 8 / 27, m_enbw = 3 / 2\<rparr>"
  by (simp add: WindowFunction_init_def Bartlett4 ComputeGains_def EffectiveSize_def Let_def
        ComputeGains_loop_step ComputeGains_loop_done update4 power2_eq_square
     )

section \<open>Verification: construction of filters and of the resampler\<close>

lemma ComputeResampledSize_value:
  "m_resampledLength (ComputeResampledSize r)
     = ((m_upsampleFactor r * m_signalLength_r r) mod 2 ^ 64) div m_downsampleFactor r"
proof -
  have "nat \<lfloor>real_of_int \<lfloor>real a / real b\<rfloor> + 0.5\<rfloor> = a div b" for a b :: nat
  proof -
    have "\<lfloor>real a / real b\<rfloor> = int (a div b)"
      by (simp add: floor_divide_of_nat_eq)
    moreover have "\<lfloor>real_of_int (int (a div b)) + 0.5\<rfloor> = int (a div b)"
      by linarith
    ultimately show ?thesis by simp
  qed
  then show ?thesis
    by (simp add: ComputeResampledSize_def Let_def)
qed

lemma Resample_init_resampledLength:
  assumes "Resample_init N U D fs fc taps beta fast = Some (Inr r)"
  shows "m_resampledLength r = ((U * N) mod 2 ^ 64) div D"
    and "0 < N" and "0 < U" and "0 < D"
    and "m_signalLength_r r = N" and "m_upsampleFactor r = U" and "m_downsampleFactor r = D"
  using assms ComputeResampledSize_value
    [of "\<lparr>m_signalLength_r = N, m_upsampleFactor = U, m_downsampleFactor = D, m_resampledLength = 0,
         m_filterHolder = FilterHolder_default, m_workspaceBuffer = []\<rparr>"]
  by (auto simp: Resample_init_def Let_def ResizeWorkspace_def ComputeResampledSize_def
           split: if_splits sum.splits option.splits)


lemma ComputeGains_loop_fields:
  "m_windowCoefficients (ComputeGains_loop sz i w) = m_windowCoefficients w \<and>
   m_effectiveSize (ComputeGains_loop sz i w) = m_effectiveSize w \<and>
   m_ignoreLastValue (ComputeGains_loop sz i w) = m_ignoreLastValue w"
proof (induction sz i w rule: ComputeGains_loop.induct)
  case (1 sz i w)
  show ?case
  proof (cases "i < sz")
    case True
    with 1 show ?thesis
      by (subst (1 2 3) ComputeGains_loop.simps) (simp)
  next
    case False
    then show ?thesis by (subst (1 2 3) ComputeGains_loop.simps) simp
  qed
qed

lemma ComputeGains_fields:
  "m_windowCoefficients (ComputeGains w) = m_windowCoefficients w"
  "m_effectiveSize (ComputeGains w) = m_effectiveSize w"
  "m_ignoreLastValue (ComputeGains w) = m_ignoreLastValue w"
  by (simp_all add: ComputeGains_def Let_def ComputeGains_loop_fields)

lemma WindowFunction_init_ok:
  assumes "2 \<le> sz" and "sz < 2 ^ 64"
  shows "\<exists>w. WindowFunction_init g sz ignoreLastValue = Inr w \<and>
             length (m_windowCoefficients w) = sz \<and>
             m_effectiveSize w = (if ignoreLastValue then sz - 1 else sz) \<and>
             m_ignoreLastValue w = (ignoreLastValue \<and> sz mod 2 = 1)"
proof -
  obtain cs where cs: "generate g (replicate sz 1) = Inr cs" "length cs = sz"
    using generate_symmetric [of "replicate sz 1" sz g] assms by auto
  have "(sz + 2 ^ 64 - 1) mod 2 ^ 64 = sz - 1"
  proof -
    obtain k where k: "sz = Suc k" using assms by (cases sz) auto
    then have "sz + 2 ^ 64 - 1 = k + 2 ^ 64" by simp
    moreover have "(k + 2 ^ 64) mod 2 ^ 64 = k" using assms k by simp
    ultimately show ?thesis using k by simp
  qed
  with cs show ?thesis
    by (simp add: WindowFunction_init_def Let_def ComputeGains_fields)
qed

lemma FirLowPassFilter_ok:
  assumes "2 < numTaps" "numTaps < 2 ^ 64" "0 < cutoffFreqHz" "0 < samplingFreqHz"
    "cutoffFreqHz \<le> samplingFreqHz / 2"
  shows "\<exists>coeffs. FirLowPassFilter numTaps cutoffFreqHz samplingFreqHz g = Inr coeffs \<and>
                  length coeffs = numTaps"
proof -
  obtain w where w: "WindowFunction_init g numTaps False = Inr w"
      "length (m_windowCoefficients w) = numTaps" "m_effectiveSize w = numTaps"
    using WindowFunction_init_ok [of numTaps g False] assms by auto
  with assms show ?thesis
    by (simp add: FirLowPassFilter_def Let_def WindowFunction_apply_def)
qed

lemma FilterHolder_init_ok:
  assumes "2 < signalLength" "filterCoeffs \<noteq> []"
    and "fast \<longrightarrow> (\<exists>fc. FftConvolve_init signalLength (length filterCoeffs) = Some (Inr fc))"
  shows "\<exists>fh. FilterHolder_init signalLength filterCoeffs fast = Some (Inr fh) \<and>
              m_signalLength fh = signalLength \<and> m_filterCoeffs fh = filterCoeffs \<and>
              m_useFastConvolution fh = fast \<and>
              m_filteredSignal fh
                = replicate ((signalLength + length filterCoeffs - 1) mod 2 ^ 64) 0 \<and>
              (fast \<longrightarrow> FftConvolve_init signalLength (length filterCoeffs)
                         = Some (Inr (m_fftConvolve fh)))"
proof (cases fast)
  case False
  with assms(1,2) show ?thesis by (simp add: FilterHolder_init_def Let_def)
next
  case True
  with assms(3) obtain fc where
      "FftConvolve_init signalLength (length filterCoeffs) = Some (Inr fc)" by blast
  with True assms(1,2) show ?thesis by (simp add: FilterHolder_init_def Let_def)
qed

lemma Resample_size_fields:
  "m_upsampleFactor (ResizeWorkspace r) = m_upsampleFactor r"
  "m_signalLength_r (ResizeWorkspace r) = m_signalLength_r r"
  "m_downsampleFactor (ResizeWorkspace r) = m_downsampleFactor r"
  "m_resampledLength (ResizeWorkspace r) = m_resampledLength r"
  "m_upsampleFactor (ComputeResampledSize r) = m_upsampleFactor r"
  "m_signalLength_r (ComputeResampledSize r) = m_signalLength_r r"
  "m_downsampleFactor (ComputeResampledSize r) = m_downsampleFactor r"
  by (simp_all add: ResizeWorkspace_def ComputeResampledSize_def Let_def)

lemma Resample_init_ok:
  assumes "0 < N" "0 < U" "0 < D" "0 < beta" "2 < taps" "taps < 2 ^ 64"
    "2 < (U * N) mod 2 ^ 64" "0 < fs"
    and fc': "fc' = (if U > D then min (min fs (fs * real U / real D) / 2) fc
          else max (min fs (fs * real U / real D) / 2) fc)"
    and "0 < fc'" "fc' \<le> fs * real U / 2"
  shows "\<exists>r. Resample_init N U D fs fc taps beta False = Some (Inr r)"
proof -
  have "0 < fs * real U" using assms by simp
  then obtain coeffs where coeffs:
      "FirLowPassFilter taps fc' (fs * real U) (KaiserGenerator beta) = Inr coeffs"
      "length coeffs = taps"
    using FirLowPassFilter_ok [of taps fc' "fs * real U" "KaiserGenerator beta"] assms by auto
  then have "coeffs \<noteq> []" using assms by auto
  then obtain fh where fh: "FilterHolder_init ((U * N) mod 2 ^ 64) coeffs False = Some (Inr fh)"
    using FilterHolder_init_ok [of "(U * N) mod 2 ^ 64" coeffs False] assms by auto
  show ?thesis
    using coeffs(1) fh assms(1-4) unfolding fc'
    by (simp add: Resample_init_def Let_def Resample_size_fields KaiserGenerator_init_def)
qed


lemma Resample_example_constructs:
  "\<exists>r. Resample_init 3 1 2 100 50 3 10 False = Some (Inr r)"
  by (rule Resample_init_ok [where fc' = 50]) simp_all

text \<open>
  Claim C4 (counterexample). The claim gives the output length as \<open>N * U / D\<close> rounded to
  the nearest integer, \<open>\<lfloor>N * U / D + 0.5\<rfloor>\<close>. For \<open>N = 3\<close>, \<open>U = 1\<close>, \<open>D = 2\<close> that is
  \<open>\<lfloor>1.5 + 0.5\<rfloor> = 2\<close>, but the constructed resampler reports 1: the source adds the 0.5
  after taking the floor of the quotient, so the addition only guards the conversion to
  \<^verbatim>\<open>size_t\<close>.
\<close>

theorem Resample_size_not_rounded_to_nearest:
  "Resample_init 3 1 2 100 50 3 10 False \<noteq> None \<and>
   \<not> isl (the (Resample_init 3 1 2 100 50 3 10 False)) \<and>
   ResampledSize (projr (the (Resample_init 3 1 2 100 50 3 10 False))) = 1 \<and>
   nat \<lfloor>(3 :: real) * 1 / 2 + 0.5\<rfloor> = 2"
proof -
  obtain r where r: "Resample_init 3 1 2 100 50 3 10 False = Some (Inr r)"
    using Resample_example_constructs by blast
  have "ResampledSize r = 1"
    using Resample_init_resampledLength(1) [OF r] by (simp add: ResampledSize_def)
  moreover have "nat \<lfloor>(3 :: real) * 1 / 2 + 0.5\<rfloor> = 2"
  proof -
    have "\<lfloor>(3 :: real) * 1 / 2 + 0.5\<rfloor> = 2" by linarith
    then show ?thesis by simp
  qed
  ultimately show ?thesis using r by simp
qed

text \<open>
  Claim C4 (amended). For every resampler constructed with signal length \<open>N\<close>, upsample factor
  \<open>U\<close> and downsample factor \<open>D\<close> whose product \<open>N * U\<close> fits \<^verbatim>\<open>size_t\<close>, the factors are at
  least 1 and \<^verbatim>\<open>ResampledSize()\<close> is \<open>\<lfloor>N * U / D\<rfloor>\<close>, the quotient rounded down (the integer
  quotient \<open>N * U div D\<close>).
\<close>

theorem Resample_size_is_floor:
  assumes "Resample_init N U D fs fc taps beta fast = Some (Inr r)" and "N * U < 2 ^ 64"
  shows "1 \<le> U \<and> 1 \<le> D \<and> ResampledSize r = nat \<lfloor>real N * real U / real D\<rfloor> \<and>
         ResampledSize r = (N * U) div D"
proof -
  have "U * N mod 2 ^ 64 = N * U"
    using assms(2) by (simp add: mult.commute)
  then have len: "ResampledSize r = (N * U) div D"
    using Resample_init_resampledLength(1) [OF assms(1)] by (simp add: ResampledSize_def)
  have "\<lfloor>real N * real U / real D\<rfloor> = int ((N * U) div D)"
    using floor_divide_of_nat_eq [of "N * U" D, where ?'a = real] by simp
  with len show ?thesis
    using Resample_init_resampledLength(3,4) [OF assms(1)] by simp
qed

theorem Resample_size_is_floor_witness:
  "\<exists>r. Resample_init 3 1 2 100 50 3 10 False = Some (Inr r) \<and> (3 :: nat) * 1 < 2 ^ 64 \<and>
       (1 :: nat) \<le> 1 \<and> (1 :: nat) \<le> 2 \<and>
       ResampledSize r = nat \<lfloor>real 3 * real 1 / real 2\<rfloor> \<and> ResampledSize r = (3 * 1) div 2"
proof -
  obtain r where r: "Resample_init 3 1 2 100 50 3 10 False = Some (Inr r)"
    using Resample_example_constructs by blast
  have "(3 :: nat) * 1 < 2 ^ 64" by simp
  from Resample_size_is_floor [OF r this] r show ?thesis by simp
qed

section \<open>Verification: rational approximation of the resampling ratio\<close>

lemma gcd_even_odd:
  fixes a b :: nat
  assumes "even a" "odd b"
  shows "gcd (a div 2) b = gcd a b"
proof -
  from assms obtain k where k: "a = 2 * k" by (auto elim: evenE)
  have "coprime b 2" using assms by (simp add: coprime_commute)
  then have "gcd (2 * k) b = gcd k b" by (rule gcd_mult_left_left_cancel)
  with k show ?thesis by simp
qed

lemma gcd_even_even:
  fixes a b :: nat
  assumes "even a" "even b"
  shows "2 * gcd (a div 2) (b div 2) = gcd a b"
  using assms by (auto elim!: evenE simp: gcd_mult_distrib_nat)

lemma Gcd_dsp_eq_gcd: "Gcd_dsp a b = gcd a b"
proof (induction a b rule: Gcd_dsp.induct)
  case (1 a b)
  show ?case
  proof (cases "a = b \<or> a = 0 \<or> b = 0")
    case True
    then show ?thesis by (subst Gcd_dsp.simps) auto
  next
    case False
    then have ne: "a \<noteq> b" "0 \<noteq> a" "0 \<noteq> b" by auto
    consider (ee) "even a" "even b" | (eo) "even a" "odd b" | (oe) "odd a" "even b"
      | (gt) "odd a" "odd b" "a > b" | (lt) "odd a" "odd b" "a < b"
      using ne(1) by (cases "even a"; cases "even b"; cases "a > b") auto
    then show ?thesis
    proof cases
      case ee
      then have "Gcd_dsp a b = 2 * Gcd_dsp (a div 2) (b div 2)"
        using ne by (subst Gcd_dsp.simps) (simp add: bit_0 drop_bit_eq_div push_bit_eq_mult)
      also have "Gcd_dsp (a div 2) (b div 2) = gcd (a div 2) (b div 2)"
        using "1.IH"(2) ne ee by (simp add: bit_0 drop_bit_eq_div)
      finally show ?thesis using ee by (simp add: gcd_even_even)
    next
      case eo
      then have "Gcd_dsp a b = Gcd_dsp (a div 2) b"
        using ne by (subst Gcd_dsp.simps) (simp add: bit_0 drop_bit_eq_div)
      also have "\<dots> = gcd (a div 2) b"
        using "1.IH"(1) ne eo by (simp add: bit_0 drop_bit_eq_div)
      finally show ?thesis using eo by (simp add: gcd_even_odd)
    next
      case oe
      then have "Gcd_dsp a b = Gcd_dsp a (b div 2)"
        using ne by (subst Gcd_dsp.simps) (simp add: bit_0 drop_bit_eq_div)
      also have "\<dots> = gcd a (b div 2)"
        using "1.IH"(3) ne oe by (simp add: bit_0 drop_bit_eq_div)
      finally show ?thesis using oe gcd_even_odd [of b a] by (simp add: gcd.commute)
    next
      case gt
      then have "Gcd_dsp a b = Gcd_dsp ((a - b) div 2) b"
        using ne by (subst Gcd_dsp.simps) (simp add: bit_0 drop_bit_eq_div)
      also have "\<dots> = gcd ((a - b) div 2) b"
        using "1.IH"(4) ne gt by (simp add: bit_0 drop_bit_eq_div)
      also have "\<dots> = gcd (a - b) b"
        using gt by (intro gcd_even_odd) simp_all
      also have "\<dots> = gcd a b"
        using gt by (simp add: gcd_diff1_nat)
      finally show ?thesis .
    next
      case lt
      then have "Gcd_dsp a b = Gcd_dsp ((b - a) div 2) a"
        using ne by (subst Gcd_dsp.simps) (simp add: bit_0 drop_bit_eq_div)
      also have "\<dots> = gcd ((b - a) div 2) a"
        using "1.IH"(5) ne lt by (simp add: bit_0 drop_bit_eq_div)
      also have "\<dots> = gcd (b - a) a"
        using lt by (intro gcd_even_odd) simp_all
      also have "\<dots> = gcd a b"
        using lt gcd_diff1_nat [of a b] by (simp add: gcd.commute)
      finally show ?thesis .
    qed
  qed
qed


lemma ComputeResampleFactors_loop_integer_diverges:
  assumes "1 \<le> k" "k \<le> maxNumerator" "1 \<le> maxDenominator"
  shows "ComputeResampleFactors_loop (real k) maxNumerator maxDenominator k 1 k 1 err factors = None"
proof (rule ccontr)
  assume "ComputeResampleFactors_loop (real k) maxNumerator maxDenominator k 1 k 1 err factors \<noteq> None"
  then obtain y where
    y: "ComputeResampleFactors_loop (real k) maxNumerator maxDenominator k 1 k 1 err factors = Some y"
    by blast
  have "gcd (2 * k) 2 = (2 :: nat)"
    by (rule gcd_proj2_if_dvd_nat) simp
  moreover have "k + k = 2 * k" "Suc (Suc 0) = 2"
    by simp_all
  ultimately have g: "Gcd_dsp (k + k) (Suc (Suc 0)) = Suc (Suc 0)"
    by (simp only: Gcd_dsp_eq_gcd)
  have "k + k = k * Suc (Suc 0)"
    by simp
  moreover have "k * Suc (Suc 0) div Suc (Suc 0) = k"
    by (rule nonzero_mult_div_cancel_right) simp
  ultimately have h: "(k + k) div Suc (Suc 0) = k"
    by (simp only:)
  have "\<not> (real k = real k \<and> maxNumerator = maxNumerator \<and> maxDenominator = maxDenominator \<and>
            k = k \<and> (1::nat) = 1 \<and> k = k \<and> (1::nat) = 1)"
  proof (rule ComputeResampleFactors_loop.raw_induct
      [where P = "\<lambda>r mN mD n_a d_a n_b d_b e f z.
          \<not> (r = real k \<and> mN = maxNumerator \<and> mD = maxDenominator \<and> n_a = k \<and> d_a = 1 \<and>
             n_b = k \<and> d_b = 1)", OF _ y])
    fix loop r mN mD n_a d_a n_b d_b e f z
    assume IH: "\<And>r mN mD n_a d_a n_b d_b e f z. loop r mN mD n_a d_a n_b d_b e f = Some z \<Longrightarrow>
          \<not> (r = real k \<and> mN = maxNumerator \<and> mD = maxDenominator \<and> n_a = k \<and> d_a = 1 \<and>
             n_b = k \<and> d_b = 1)"
      and body: "(let n_m0 = n_a + n_b; d_m0 = d_a + d_b; g = Gcd_dsp n_m0 d_m0;
          n_m = if 1 < g then n_m0 div g else n_m0;
          d_m = if 1 < g then d_m0 div g else d_m0
      in if mN < n_m \<or> mD < d_m then Some f
         else let m = real n_m / real d_m;
                  absDiff = \<bar>m - r\<bar>;
                  error' = if absDiff < e then absDiff else e;
                  factors' = if absDiff < e then (n_m, d_m) else f
              in if m \<le> r
                 then loop r mN mD n_m d_m n_b d_b error' factors'
                 else loop r mN mD n_a d_a n_m d_m error' factors') = Some z"
    show "\<not> (r = real k \<and> mN = maxNumerator \<and> mD = maxDenominator \<and> n_a = k \<and> d_a = 1 \<and>
             n_b = k \<and> d_b = 1)"
    proof
      assume eq: "r = real k \<and> mN = maxNumerator \<and> mD = maxDenominator \<and> n_a = k \<and> d_a = 1 \<and>
            n_b = k \<and> d_b = 1"
      with body assms
      have "loop (real k) maxNumerator maxDenominator k 1 k 1
              (if 0 < e then 0 else e) (if 0 < e then (k, 1) else f) = Some z"
        by (simp add: Let_def g h cong: if_cong)
      from IH [OF this] show False by simp
    qed
  qed
  then show False by simp
qed

lemma ComputeResampleFactors_integer_diverges:
  assumes "1 \<le> k" "k \<le> maxNumerator" "1 \<le> maxDenominator"
  shows "ComputeResampleFactors (real k) maxNumerator maxDenominator = None"
  using assms ComputeResampleFactors_loop_integer_diverges [OF assms]
  by (simp add: ComputeResampleFactors_def Let_def)

text \<open>
  Claim C5 says that \<^verbatim>\<open>ComputeResampleFactors\<close> terminates for every positive ratio and
  positive bounds. For an integer ratio \<open>k\<close> the two brackets start as \<open>k/1\<close> and \<open>k/1\<close>, the
  mediant \<open>2k/2\<close> is reduced by the greatest common divisor to \<open>k/1\<close> again, and the loop
  state never changes: unless \<open>k\<close> exceeds the numerator bound, the \<^verbatim>\<open>break\<close> is never reached
  (lemma \<open>ComputeResampleFactors_integer_diverges\<close>). Evaluated at the ratio 2.0 with the
  default bounds 128 and 128, the call has no result.
\<close>

theorem ComputeResampleFactors_diverges_at_2:
  "ComputeResampleFactors 2 128 128 = None"
  using ComputeResampleFactors_integer_diverges [of 2 128 128] by simp

section \<open>Verification: workspaces of the FFT convolution\<close>

lemma size_t_cast_floor: "nat \<lfloor>real_of_int \<lfloor>x\<rfloor> + 0.5\<rfloor> = nat \<lfloor>x :: real\<rfloor>"
proof -
  have "\<lfloor>real_of_int \<lfloor>x\<rfloor> + 0.5\<rfloor> = \<lfloor>x\<rfloor>" by linarith
  then show ?thesis by simp
qed

lemma floor_log2_bounds:
  assumes "0 < L"
  shows "2 ^ nat \<lfloor>log 2 (real L)\<rfloor> \<le> L \<and> L < 2 ^ (nat \<lfloor>log 2 (real L)\<rfloor> + 1)"
proof -
  have "0 \<le> \<lfloor>log 2 (real L)\<rfloor>"
    using assms by simp
  then have "\<lfloor>log 2 (real L)\<rfloor> = int (nat \<lfloor>log 2 (real L)\<rfloor>)"
    by simp
  then show ?thesis
    using floor_log_nat_eq_powr_iff [of 2 L "nat \<lfloor>log 2 (real L)\<rfloor>"] assms by simp
qed

lemma floor_log2_less:
  assumes "0 < L" "L < 2 ^ b"
  shows "nat \<lfloor>log 2 (real L)\<rfloor> < b"
proof -
  have "(2::nat) ^ nat \<lfloor>log 2 (real L)\<rfloor> < 2 ^ b"
    using floor_log2_bounds [OF assms(1)] assms(2) by linarith
  then show ?thesis by simp
qed

lemma FftConvolve_init_workspaces:
  assumes "0 < signalLength" "0 < kernelLength" "signalLength + kernelLength - 1 < 2 ^ 63"
  shows "FftConvolve_init signalLength kernelLength =
           Some (Inr \<lparr>m_discreteConvolutionLength = signalLength + kernelLength - 1,
                m_workspace1 = replicate (2 ^ (nat \<lfloor>log 2 (real (signalLength + kernelLength - 1))\<rfloor> + 1)) 0,
                m_workspace2 = replicate (2 ^ (nat \<lfloor>log 2 (real (signalLength + kernelLength - 1))\<rfloor> + 1)) 0\<rparr>)"
proof -
  let ?L = "signalLength + kernelLength - 1"
  have L: "0 < ?L" using assms(1,2) by simp
  have "?L < 2 ^ 64" using assms(3) by simp
  then have wrap: "?L mod 2 ^ 64 = ?L" by simp
  have p: "nat \<lfloor>log 2 (real ?L)\<rfloor> + 1 < 64"
    using floor_log2_less [OF L assms(3)] by simp
  show ?thesis
    using assms(1,2) L p unfolding FftConvolve_init_def Let_def wrap size_t_cast_floor
    by (simp add: push_bit_eq_mult del: of_nat_diff)
qed

lemma FftConvolve_init_constructed:
  assumes "FftConvolve_init M N = Some (Inr fc)"
  shows "0 < M" and "0 < N" and "(M + N - 1) mod 2 ^ 64 < 2 ^ 63"
proof -
  from assms show pos: "0 < M" "0 < N"
    by (auto simp: FftConvolve_init_def split: if_splits)
  let ?L = "(M + N - 1) mod 2 ^ 64"
  from assms pos have L: "0 < ?L" and p: "nat \<lfloor>log 2 (real ?L)\<rfloor> + 1 < 64"
    unfolding FftConvolve_init_def Let_def size_t_cast_floor
    by (auto split: if_splits)
  have "?L < 2 ^ (nat \<lfloor>log 2 (real ?L)\<rfloor> + 1)"
    using floor_log2_bounds [OF L] by simp
  also have "\<dots> \<le> 2 ^ 63"
    using p by (intro power_increasing) simp_all
  finally show "?L < 2 ^ 63" .
qed

lemma FftConvolve_init_wraps:
  "FftConvolve_init (2 ^ 64 - 1) 3 =
     Some (Inr \<lparr>m_discreteConvolutionLength = 1, m_workspace1 = replicate 2 0,
                 m_workspace2 = replicate 2 0\<rparr>)"
proof -
  have "((2::nat) ^ 64 - 1 + 3 - 1) mod 2 ^ 64 = 1" by simp
  then show ?thesis
    unfolding FftConvolve_init_def Let_def size_t_cast_floor by simp
qed

text \<open>
  Claim C6 (counterexample). The claim sizes the workspaces to the smallest power of two
  that is at least \<open>M + N - 1\<close>. For \<open>M = 2\<close>, \<open>N = 3\<close> the output length 4 is itself a power of
  two, yet the object is constructed with 8 elements in each workspace.
\<close>

theorem FftConvolve_workspace_not_least_power_ge:
  "FftConvolve_init 2 3 \<noteq> None \<and> \<not> isl (the (FftConvolve_init 2 3)) \<and>
   length (m_workspace1 (projr (the (FftConvolve_init 2 3)))) = 8 \<and>
   length (m_workspace2 (projr (the (FftConvolve_init 2 3)))) = 8 \<and>
   (2 :: nat) + 3 - 1 \<le> 2 ^ 2 \<and> (2 :: nat) ^ 2 < 8"
proof -
  have "\<lfloor>log 2 (real (4::nat))\<rfloor> = int 2"
    using floor_log_nat_eq_if [of 2 2 4] by simp
  then have "nat \<lfloor>log 2 (real (4::nat))\<rfloor> = 2"
    by simp
  then show ?thesis
    using FftConvolve_init_workspaces [of 2 3] by simp
qed

text \<open>
  Claim C6 (amended). For every \<open>FftConvolve\<close> constructed with signal length \<open>M > 0\<close> and kernel
  length \<open>N > 0\<close> whose output length \<open>M + N - 1\<close> fits \<^verbatim>\<open>size_t\<close>, the stored length is
  \<open>M + N - 1\<close> and both workspaces have the same length \<open>2 ^ p\<close>, the smallest power of two
  that is strictly greater than \<open>M + N - 1\<close>. (A construction with a defined result has
  \<open>M + N - 1 < 2 ^ 63\<close>; without the bound the length wraps, as for \<open>M = 2 ^ 64 - 1\<close>,
  \<open>N = 3\<close> in lemma \<open>FftConvolve_init_wraps\<close>.)
\<close>

theorem FftConvolve_workspace_least_power_gt:
  assumes "FftConvolve_init M N = Some (Inr fc)" and "M + N - 1 < 2 ^ 64"
  shows "0 < M \<and> 0 < N \<and> m_discreteConvolutionLength fc = M + N - 1 \<and>
         (\<exists>p. length (m_workspace1 fc) = 2 ^ p \<and> length (m_workspace2 fc) = 2 ^ p \<and>
              M + N - 1 < 2 ^ p \<and> (\<forall>q. M + N - 1 < 2 ^ q \<longrightarrow> p \<le> q))"
proof -
  note pos = FftConvolve_init_constructed(1,2) [OF assms(1)]
  let ?L = "M + N - 1"
  let ?p = "nat \<lfloor>log 2 (real ?L)\<rfloor> + 1"
  have L: "0 < ?L" using pos by simp
  have "?L mod 2 ^ 64 = ?L" using assms(2) by simp
  with FftConvolve_init_constructed(3) [OF assms(1)] have small: "?L < 2 ^ 63" by simp
  have fc: "fc = \<lparr>m_discreteConvolutionLength = ?L, m_workspace1 = replicate (2 ^ ?p) 0,
                  m_workspace2 = replicate (2 ^ ?p) 0\<rparr>"
    using assms(1) FftConvolve_init_workspaces [OF pos small] by simp
  have bounds: "2 ^ (?p - 1) \<le> ?L" "?L < 2 ^ ?p"
    using floor_log2_bounds [OF L] by simp_all
  have least: "\<forall>q. ?L < 2 ^ q \<longrightarrow> ?p \<le> q"
  proof (intro allI impI)
    fix q assume "?L < 2 ^ q"
    with bounds(1) have "(2::nat) ^ (?p - 1) < 2 ^ q" by linarith
    then have "?p - 1 < q" by simp
    then show "?p \<le> q" by simp
  qed
  show ?thesis
    using pos fc bounds(2) least by (intro conjI exI [of _ ?p]) simp_all
qed

theorem FftConvolve_workspace_least_power_gt_witness:
  "\<exists>fc. FftConvolve_init 2 3 = Some (Inr fc) \<and> (2::nat) + 3 - 1 < 2 ^ 64 \<and>
        (0::nat) < 2 \<and> (0::nat) < 3 \<and>
        m_discreteConvolutionLength fc = 2 + 3 - 1 \<and>
        (\<exists>p. length (m_workspace1 fc) = 2 ^ p \<and> length (m_workspace2 fc) = 2 ^ p \<and>
             (2::nat) + 3 - 1 < 2 ^ p \<and> (\<forall>q. (2::nat) + 3 - 1 < 2 ^ q \<longrightarrow> p \<le> q))"
proof -
  obtain fc where fc: "FftConvolve_init 2 3 = Some (Inr fc)"
    using FftConvolve_init_workspaces [of 2 3] by simp
  have "(2::nat) + 3 - 1 < 2 ^ 64" by simp
  from FftConvolve_workspace_least_power_gt [OF fc this] fc show ?thesis by simp
qed

section \<open>Verification: magnitude and power spectra\<close>

lemma ToMagnitude_loop_length [simp]: "length (ToMagnitude_loop endItr zItr d) = length d"
proof (induction endItr zItr d rule: ToMagnitude_loop.induct)
  case (1 endItr zItr d)
  then show ?case
    by (subst ToMagnitude_loop.simps) (simp add: Let_def)
qed

lemma ToPower_loop_length [simp]: "length (ToPower_loop endItr zItr d) = length d"
proof (induction endItr zItr d rule: ToPower_loop.induct)
  case (1 endItr zItr d)
  then show ?case
    by (subst ToPower_loop.simps) (simp add: Let_def)
qed

lemma zeroUnused_loop_length [simp]: "length (zeroUnused_loop zItr d) = length d"
proof (induction zItr d rule: zeroUnused_loop.induct)
  case (1 zItr d)
  then show ?case
    by (subst zeroUnused_loop.simps) simp
qed

lemma ToMagnitude_loop_nth:
  assumes "endItr \<le> length d" "i < length d"
  shows "ToMagnitude_loop endItr zItr d ! i =
           (if zItr \<le> i \<and> i < endItr
            then Complex (cmod (if i \<noteq> 0 then d ! i * 2 else d ! i)) 0
            else d ! i)"
  using assms
proof (induction endItr zItr d rule: ToMagnitude_loop.induct)
  case (1 endItr zItr d)
  show ?case
  proof (cases "zItr < endItr")
    case False
    then show ?thesis by (subst ToMagnitude_loop.simps) auto
  next
    case True
    let ?d1 = "(if zItr \<noteq> 0 then d[zItr := d ! zItr * 2] else d)"
    let ?d2 = "?d1[zItr := Complex (cmod (?d1 ! zItr)) 0]"
    have z: "zItr < length d" using True "1.prems" by simp
    have step: "ToMagnitude_loop endItr zItr d = ToMagnitude_loop endItr (zItr + 1) ?d2"
      using True by (subst ToMagnitude_loop.simps) (simp add: Let_def)
    have ih: "ToMagnitude_loop endItr (zItr + 1) ?d2 ! i =
           (if zItr + 1 \<le> i \<and> i < endItr
            then Complex (cmod (if i \<noteq> 0 then ?d2 ! i * 2 else ?d2 ! i)) 0
            else ?d2 ! i)"
      using "1.IH" [OF True refl refl] "1.prems" by simp
    show ?thesis
    proof (cases "i = zItr")
      case True
      then show ?thesis
        unfolding step ih using z \<open>zItr < endItr\<close> by auto
    next
      case False
      then show ?thesis
        unfolding step ih using z "1.prems" by auto
    qed
  qed
qed

lemma ToPower_loop_nth:
  assumes "endItr \<le> length d" "i < length d"
  shows "ToPower_loop endItr zItr d ! i =
           (if zItr \<le> i \<and> i < endItr
            then Complex ((Re (d ! i))\<^sup>2 + (Im (d ! i))\<^sup>2) 0
            else d ! i)"
  using assms
proof (induction endItr zItr d rule: ToPower_loop.induct)
  case (1 endItr zItr d)
  show ?case
  proof (cases "zItr < endItr")
    case False
    then show ?thesis by (subst ToPower_loop.simps) auto
  next
    case True
    let ?d2 = "d[zItr := Complex ((Re (d ! zItr))\<^sup>2 + (Im (d ! zItr))\<^sup>2) 0]"
    have z: "zItr < length d" using True "1.prems" by simp
    have step: "ToPower_loop endItr zItr d = ToPower_loop endItr (zItr + 1) ?d2"
      using True by (subst ToPower_loop.simps) (simp add: Let_def)
    have ih: "ToPower_loop endItr (zItr + 1) ?d2 ! i =
           (if zItr + 1 \<le> i \<and> i < endItr
            then Complex ((Re (?d2 ! i))\<^sup>2 + (Im (?d2 ! i))\<^sup>2) 0
            else ?d2 ! i)"
      using "1.IH" [OF True refl] "1.prems" by simp
    show ?thesis
    proof (cases "i = zItr")
      case True
      then show ?thesis
        unfolding step ih using z \<open>zItr < endItr\<close> by auto
    next
      case False
      then show ?thesis
        unfolding step ih using z "1.prems" by auto
    qed
  qed
qed

lemma zeroUnused_loop_nth:
  assumes "i < length d"
  shows "zeroUnused_loop zItr d ! i = (if zItr \<le> i then 0 else d ! i)"
  using assms
proof (induction zItr d rule: zeroUnused_loop.induct)
  case (1 zItr d)
  show ?case
  proof (cases "zItr < length d")
    case False
    with "1.prems" show ?thesis by (subst zeroUnused_loop.simps) simp
  next
    case True
    have "zeroUnused_loop zItr d ! i = zeroUnused_loop (zItr + 1) (d[zItr := Complex 0 0]) ! i"
      using True by (subst zeroUnused_loop.simps) simp
    also have "\<dots> = (if zItr + 1 \<le> i then 0 else d[zItr := Complex 0 0] ! i)"
      using "1.IH" [OF True] "1.prems" by simp
    also have "\<dots> = (if zItr \<le> i then 0 else d ! i)"
      using True by (cases "i = zItr") (auto simp: complex_eq_iff)
    finally show ?thesis .
  qed
qed


lemma int32_cast_small:
  assumes "n < 2 ^ 31"
  shows "sint (word_of_nat n :: 32 word) = int n"
proof -
  have "sint (word_of_nat n :: 32 word) = signed_take_bit 31 (int n)"
    by (simp add: signed_of_nat)
  also have "\<dots> = int n"
    using assms by (simp add: signed_take_bit_int_eq_self)
  finally show ?thesis .
qed

lemma ToMagnitude_value:
  assumes "length cplxFft < 2 ^ 31"
  shows "ToMagnitude cplxFft zeroUnused fullSpectrum =
           Some (if zeroUnused
                 then zeroUnused_loop (if fullSpectrum then length cplxFft else length cplxFft div 2)
                        (ToMagnitude_loop (if fullSpectrum then length cplxFft else length cplxFft div 2)
                           0 cplxFft)
                 else ToMagnitude_loop (if fullSpectrum then length cplxFft else length cplxFft div 2)
                        0 cplxFft)"
proof -
  have "length cplxFft div 2 \<le> length cplxFft" by simp
  then have "(if fullSpectrum then length cplxFft else length cplxFft div 2) < 2 ^ 31"
    using assms by (simp del: div_le_dividend)
  from int32_cast_small [OF this] show ?thesis
    unfolding ToMagnitude_def Let_def by simp
qed

lemma ToPower_value:
  assumes "length cplxFft < 2 ^ 31"
  shows "ToPower cplxFft zeroUnused fullSpectrum =
           Some (if zeroUnused
                 then zeroUnused_loop (if fullSpectrum then length cplxFft else length cplxFft div 2)
                        (ToPower_loop (if fullSpectrum then length cplxFft else length cplxFft div 2)
                           0 cplxFft)
                 else ToPower_loop (if fullSpectrum then length cplxFft else length cplxFft div 2)
                        0 cplxFft)"
proof -
  have "length cplxFft div 2 \<le> length cplxFft" by simp
  then have "(if fullSpectrum then length cplxFft else length cplxFft div 2) < 2 ^ 31"
    using assms by (simp del: div_le_dividend)
  from int32_cast_small [OF this] show ?thesis
    unfolding ToPower_def Let_def by simp
qed

lemma ToMagnitude_nth:
  assumes "length cplxFft < 2 ^ 31" "i < length cplxFft"
  shows "the (ToMagnitude cplxFft zeroUnused fullSpectrum) ! i =
           (if i < (if fullSpectrum then length cplxFft else length cplxFft div 2)
            then Complex (cmod (if i = 0 then cplxFft ! i else cplxFft ! i * 2)) 0
            else if zeroUnused then 0 else cplxFft ! i)"
  using assms(2)
  by (simp add: ToMagnitude_value [OF assms(1)] zeroUnused_loop_nth ToMagnitude_loop_nth)

lemma ToPower_nth:
  assumes "length cplxFft < 2 ^ 31" "i < length cplxFft"
  shows "the (ToPower cplxFft zeroUnused fullSpectrum) ! i =
           (if i < (if fullSpectrum then length cplxFft else length cplxFft div 2)
            then Complex ((Re (cplxFft ! i))\<^sup>2 + (Im (cplxFft ! i))\<^sup>2) 0
            else if zeroUnused then 0 else cplxFft ! i)"
  using assms(2)
  by (simp add: ToPower_value [OF assms(1)] zeroUnused_loop_nth ToPower_loop_nth)

lemma ToMagnitude_length:
  "length cplxFft < 2 ^ 31 \<Longrightarrow>
     length (the (ToMagnitude cplxFft zeroUnused fullSpectrum)) = length cplxFft"
  by (simp add: ToMagnitude_value)

lemma ToPower_length:
  "length cplxFft < 2 ^ 31 \<Longrightarrow>
     length (the (ToPower cplxFft zeroUnused fullSpectrum)) = length cplxFft"
  by (simp add: ToPower_value)

lemma ToMagnitude_int32_negative:
  assumes "length cplxFft = 2 ^ 31"
  shows "ToMagnitude cplxFft zeroUnused True = None"
  unfolding ToMagnitude_def Let_def assms by simp

text \<open>
  Claim C2 (counterexample). The claim says that both conversions double every bin except DC
  before the value is extracted. \<open>ToPower\<close> does not: on the half spectrum of
  \<open>[1, 1, 1, 1]\<close> the call returns and bin 1 becomes \<open>|1|\<^sup>2 = 1\<close>, whereas the power of the
  doubled bin would be \<open>|2 * 1|\<^sup>2 = 4\<close>.
\<close>

theorem ToPower_does_not_double:
  "ToPower [1, 1, 1, 1] False False \<noteq> None \<and>
   the (ToPower [1, 1, 1, 1] False False) ! 1 = Complex 1 0 \<and>
   the (ToPower [1, 1, 1, 1] False False) ! 1
     \<noteq> Complex ((Re (2 * [1, 1, 1, 1] ! 1))\<^sup>2 + (Im (2 * [1, 1, 1, 1] ! 1))\<^sup>2) 0"
  using ToPower_nth [of "[1, 1, 1, 1]" 1 False False] ToPower_value [of "[1, 1, 1, 1]" False False]
  by simp

text \<open>
  Claim C2 (amended). For a vector of fewer than \<open>2 ^ 31\<close> bins (the offset of the end
  iterator is an \<^verbatim>\<open>int32_t\<close>), \<open>ToMagnitude\<close> and \<open>ToPower\<close> return, keep the length of
  the vector and operate on its first \<open>fullSpectrum ? N : N / 2\<close> bins. In \<open>ToMagnitude\<close>
  every such bin except DC (index 0) is doubled before its magnitude is taken; in \<open>ToPower\<close>
  no bin is doubled, the value is \<open>re\<^sup>2 + im\<^sup>2\<close> of the bin as it is. The result is stored
  in the real component with the imaginary part zero. Every remaining bin is set to zero
  when \<open>zeroUnused\<close> is requested and is left unchanged otherwise.
\<close>

theorem ToMagnitude_ToPower_bins:
  assumes "length cplxFft < 2 ^ 31"
  shows "\<exists>dm dp.
     ToMagnitude cplxFft zeroUnused fullSpectrum = Some dm \<and>
     ToPower cplxFft zeroUnused fullSpectrum = Some dp \<and>
     length dm = length cplxFft \<and> length dp = length cplxFft \<and>
     (\<forall>i < length cplxFft.
        dm ! i =
          (if i < (if fullSpectrum then length cplxFft else length cplxFft div 2)
           then Complex (cmod (if i = 0 then cplxFft ! i else 2 * cplxFft ! i)) 0
           else if zeroUnused then Complex 0 0 else cplxFft ! i) \<and>
        dp ! i =
          (if i < (if fullSpectrum then length cplxFft else length cplxFft div 2)
           then Complex ((Re (cplxFft ! i))\<^sup>2 + (Im (cplxFft ! i))\<^sup>2) 0
           else if zeroUnused then Complex 0 0 else cplxFft ! i))"
proof -
  obtain dm where dm: "ToMagnitude cplxFft zeroUnused fullSpectrum = Some dm"
    using ToMagnitude_value [OF assms] by blast
  obtain dp where dp: "ToPower cplxFft zeroUnused fullSpectrum = Some dp"
    using ToPower_value [OF assms] by blast
  have zero: "Complex 0 0 = 0" by (simp add: complex_eq_iff)
  have ldm: "length dm = length cplxFft"
    using ToMagnitude_length [OF assms, of zeroUnused fullSpectrum] dm by simp
  have ldp: "length dp = length cplxFft"
    using ToPower_length [OF assms, of zeroUnused fullSpectrum] dp by simp
  have bins: "dm ! i =
          (if i < (if fullSpectrum then length cplxFft else length cplxFft div 2)
           then Complex (cmod (if i = 0 then cplxFft ! i else 2 * cplxFft ! i)) 0
           else if zeroUnused then Complex 0 0 else cplxFft ! i) \<and>
        dp ! i =
          (if i < (if fullSpectrum then length cplxFft else length cplxFft div 2)
           then Complex ((Re (cplxFft ! i))\<^sup>2 + (Im (cplxFft ! i))\<^sup>2) 0
           else if zeroUnused then Complex 0 0 else cplxFft ! i)"
    if i: "i < length cplxFft" for i
    using ToMagnitude_nth [OF assms i, of zeroUnused fullSpectrum]
      ToPower_nth [OF assms i, of zeroUnused fullSpectrum]
    unfolding dm dp zero option.sel by (simp add: mult.commute)
  show ?thesis
    using dm dp ldm ldp bins by blast
qed

theorem ToMagnitude_ToPower_bins_witness:
  "length [5, - 3, 2, 7 :: complex] < 2 ^ 31 \<and>
   ToMagnitude [5, - 3, 2, 7] True False = Some [5, 6, 0, 0] \<and>
   ToPower [5, - 3, 2, 7] True False = Some [25, 9, 0, 0] \<and>
   ToMagnitude [5, - 3, 2, 7] False False = Some [5, 6, 2, 7]"
proof -
  have cases4: "i = 0 \<or> i = 1 \<or> i = 2 \<or> i = 3" if "i < 4" for i :: nat
    using that by linarith
  have nth4: "[a, b, c, d] ! 1 = b" "[a, b, c, d] ! 2 = c" "[a, b, c, d] ! 3 = d" for a b c d :: complex
    by (simp_all add: eval_nat_numeral)
  have zero: "Complex 0 0 = 0" and c5: "Complex 5 0 = 5" and c6: "Complex 6 0 = 6"
    and c25: "Complex 25 0 = 25" and c9: "Complex 9 0 = 9"
    by (simp_all add: complex_eq_iff)
  have small: "length [5, - 3, 2, 7 :: complex] < 2 ^ 31" by simp
  note spec = ToMagnitude_ToPower_bins [OF small]
  obtain dm dp where tt:
      "ToMagnitude [5, - 3, 2, 7] True False = Some dm" "ToPower [5, - 3, 2, 7] True False = Some dp"
      "length dm = 4" "length dp = 4"
      "\<forall>i<4. dm ! i = (if i < 2 then Complex (cmod (if i = 0 then [5, - 3, 2, 7] ! i
                                                     else 2 * [5, - 3, 2, 7] ! i)) 0 else Complex 0 0) \<and>
              dp ! i = (if i < 2 then Complex ((Re ([5, - 3, 2, 7] ! i))\<^sup>2
                                             + (Im ([5, - 3, 2, 7] ! i))\<^sup>2) 0 else Complex 0 0)"
    using spec [of True False] by auto
  obtain em ep where ff:
      "ToMagnitude [5, - 3, 2, 7] False False = Some em" "length em = 4"
      "\<forall>i<4. em ! i = (if i < 2 then Complex (cmod (if i = 0 then [5, - 3, 2, 7] ! i
                                                     else 2 * [5, - 3, 2, 7] ! i)) 0
                       else [5, - 3, 2, 7] ! i)"
    using spec [of False False] by auto
  have "dm = [5, 6, 0, 0]"
  proof (rule nth_equalityI)
    show "length dm = length [5, 6, 0, 0 :: complex]" using tt(3) by simp
    fix i assume "i < length dm"
    then have "i < 4" using tt(3) by simp
    from cases4 [OF this] show "dm ! i = [5, 6, 0, 0] ! i"
      using tt(5) by (auto simp: nth4 zero c5 c6)
  qed
  moreover have "dp = [25, 9, 0, 0]"
  proof (rule nth_equalityI)
    show "length dp = length [25, 9, 0, 0 :: complex]" using tt(4) by simp
    fix i assume "i < length dp"
    then have "i < 4" using tt(4) by simp
    from cases4 [OF this] show "dp ! i = [25, 9, 0, 0] ! i"
      using tt(5) by (auto simp: nth4 zero c25 c9)
  qed
  moreover have "em = [5, 6, 2, 7]"
  proof (rule nth_equalityI)
    show "length em = length [5, 6, 2, 7 :: complex]" using ff(2) by simp
    fix i assume "i < length em"
    then have "i < 4" using ff(2) by simp
    from cases4 [OF this] show "em ! i = [5, 6, 2, 7] ! i"
      using ff(3) by (auto simp: nth4 zero c5 c6)
  qed
  ultimately show ?thesis using tt(1,2) ff(1) by simp
qed

section \<open>Verification: the stages of the transform\<close>

lemma block_index_low:
  fixes k l q :: nat
  assumes "l < k"
  shows "(q * (2 * k) + l) mod k = l" "(q * (2 * k) + l) div (2 * k) = q"
    "(q * (2 * k) + l) mod (2 * k) = l"
proof -
  have "q * (2 * k) + l = l + (q * 2) * k" by simp
  then show "(q * (2 * k) + l) mod k = l" using assms by (simp only: mod_mult_self1) simp
  show "(q * (2 * k) + l) div (2 * k) = q" using assms by simp
  show "(q * (2 * k) + l) mod (2 * k) = l" using assms by simp
qed

lemma block_index_high:
  fixes k l q :: nat
  assumes "l < k"
  shows "(q * (2 * k) + l + k) mod k = l" "(q * (2 * k) + l + k) div (2 * k) = q"
    "(q * (2 * k) + l + k) mod (2 * k) = l + k"
proof -
  have "q * (2 * k) + l + k = l + (q * 2 + 1) * k" by simp
  then show "(q * (2 * k) + l + k) mod k = l" using assms by (simp only: mod_mult_self1) simp
  have eq: "q * (2 * k) + l + k = (l + k) + q * (2 * k)" by simp
  have lt: "l + k < 2 * k" using assms by simp
  show "(q * (2 * k) + l + k) div (2 * k) = q"
    unfolding eq using lt by simp
  show "(q * (2 * k) + l + k) mod (2 * k) = l + k"
    unfolding eq using lt by simp
qed

lemma block_index_cases:
  fixes k l q p :: nat
  assumes "0 < k" "p mod k = l" "p div (2 * k) = q"
  shows "p = q * (2 * k) + l \<or> p = q * (2 * k) + l + k"
proof -
  have p: "p = q * (2 * k) + p mod (2 * k)"
    using assms(3) by (metis div_mult_mod_eq)
  have lt: "p mod (2 * k) < 2 * k" using assms(1) by simp
  have "p mod (2 * k) mod k = l"
    using assms(2) by (simp add: mod_mod_cancel)
  then have "p mod (2 * k) = l \<or> p mod (2 * k) = l + k"
  proof (cases "p mod (2 * k) < k")
    case True
    then show ?thesis using \<open>p mod (2 * k) mod k = l\<close> by simp
  next
    case False
    then have "p mod (2 * k) - k < k" using lt by simp
    moreover have "(p mod (2 * k) - k) mod k = l"
      using False \<open>p mod (2 * k) mod k = l\<close> by (simp add: le_mod_geq)
    ultimately have "p mod (2 * k) - k = l" by simp
    then show ?thesis using False by linarith
  qed
  with p show ?thesis by auto
qed


lemma butterfly_upto_length [simp]: "length (butterfly_upto k T l q d) = length d"
  by (simp add: butterfly_upto_def)

lemma butterfly_upto_nth:
  "p < length d \<Longrightarrow>
   butterfly_upto k T l q d ! p =
     (if p mod k = l \<and> p div (2 * k) < q
      then (if p mod (2 * k) < k then d ! p + d ! (p + k) else (d ! (p - k) - d ! p) * T)
      else d ! p)"
  by (simp add: butterfly_upto_def)

lemma butterfly_upto_0: "butterfly_upto k T l 0 d = d"
  by (rule nth_equalityI) (simp_all add: butterfly_upto_nth)

lemma butterfly_step:
  assumes k: "0 < k" and l: "l < k" and a: "a = q * (2 * k) + l" and b: "a + k < length d0"
  shows "(butterfly_upto k T l q d0)[a := d0 ! a + d0 ! (a + k), a + k := (d0 ! a - d0 ! (a + k)) * T]
           = butterfly_upto k T l (Suc q) d0"
proof (rule nth_equalityI)
  show "length ((butterfly_upto k T l q d0)[a := d0 ! a + d0 ! (a + k),
          a + k := (d0 ! a - d0 ! (a + k)) * T]) = length (butterfly_upto k T l (Suc q) d0)"
    by simp
next
  fix p
  assume "p < length ((butterfly_upto k T l q d0)[a := d0 ! a + d0 ! (a + k),
          a + k := (d0 ! a - d0 ! (a + k)) * T])"
  then have p: "p < length d0" by simp
  have a_lt: "a < length d0" using b by simp
  note low = block_index_low [OF l, of q, folded a]
  have high: "(a + k) mod k = l" "(a + k) div (2 * k) = q" "(a + k) mod (2 * k) = l + k"
    using block_index_high [OF l, of q] a by simp_all
  consider (lo) "p = a" | (hi) "p = a + k" | (other) "p \<noteq> a" "p \<noteq> a + k"
    by blast
  then show "(butterfly_upto k T l q d0)[a := d0 ! a + d0 ! (a + k),
          a + k := (d0 ! a - d0 ! (a + k)) * T] ! p = butterfly_upto k T l (Suc q) d0 ! p"
  proof cases
    case lo
    have "butterfly_upto k T l (Suc q) d0 ! a = d0 ! a + d0 ! (a + k)"
      using a_lt low l by (simp add: butterfly_upto_nth)
    moreover have "(butterfly_upto k T l q d0)[a := d0 ! a + d0 ! (a + k),
          a + k := (d0 ! a - d0 ! (a + k)) * T] ! a = d0 ! a + d0 ! (a + k)"
      using a_lt k by simp
    ultimately show ?thesis using lo by simp
  next
    case hi
    have "butterfly_upto k T l (Suc q) d0 ! (a + k) = (d0 ! a - d0 ! (a + k)) * T"
      using b high l by (simp add: butterfly_upto_nth)
    moreover have "(butterfly_upto k T l q d0)[a := d0 ! a + d0 ! (a + k),
          a + k := (d0 ! a - d0 ! (a + k)) * T] ! (a + k) = (d0 ! a - d0 ! (a + k)) * T"
      using b by simp
    ultimately show ?thesis using hi by simp
  next
    case other
    have "\<not> (p mod k = l \<and> p div (2 * k) = q)"
      using block_index_cases [OF k, of p l q] other a by auto
    then have "(p mod k = l \<and> p div (2 * k) < Suc q) = (p mod k = l \<and> p div (2 * k) < q)"
      by (auto simp: less_Suc_eq)
    then have "butterfly_upto k T l (Suc q) d0 ! p = butterfly_upto k T l q d0 ! p"
      using p by (simp only: butterfly_upto_nth)
    then show ?thesis using other by simp
  qed
qed

lemma butterfly_loop_blocks:
  assumes k: "0 < k" and dvd: "2 * k dvd N" and l: "l < k"
    and N: "N \<le> 2 ^ 31" and len: "length d0 = N" and q: "q \<le> N div (2 * k)"
  shows "butterfly_loop N (2 * k) k T (q * (2 * k) + l) (butterfly_upto k T l q d0)
           = Some (butterfly_upto k T l (N div (2 * k)) d0)"
  using q
proof (induction "N div (2 * k) - q" arbitrary: q)
  case 0
  then have "q = N div (2 * k)" by simp
  then have "q * (2 * k) = N" using dvd by simp
  then have "\<not> q * (2 * k) + l < N" by simp
  then show ?case
    using \<open>q = N div (2 * k)\<close> by (subst butterfly_loop.simps) simp
next
  case (Suc x)
  then have q: "q < N div (2 * k)" by simp
  let ?a = "q * (2 * k) + l"
  have "Suc q * (2 * k) \<le> N div (2 * k) * (2 * k)"
    using q by (intro mult_le_mono1) simp
  then have block: "q * (2 * k) + 2 * k \<le> N"
    using dvd by simp
  have a: "?a < N" "?a + k < N" using block l by simp_all
  have nowrap: "(?a + k) mod 4294967296 = ?a + k"
    "(?a + 2 * k) mod 4294967296 = Suc q * (2 * k) + l"
  proof -
    have "?a + k < 4294967296" "?a + 2 * k < 4294967296" using a N block l by simp_all
    then show "(?a + k) mod 4294967296 = ?a + k"
      "(?a + 2 * k) mod 4294967296 = Suc q * (2 * k) + l"
      by simp_all
  qed
  let ?cur = "butterfly_upto k T l q d0"
  have cur: "?cur ! ?a = d0 ! ?a" "?cur ! (?a + k) = d0 ! (?a + k)"
    using a len l block_index_low [OF l, of q] block_index_high [OF l, of q]
    by (simp_all add: butterfly_upto_nth)
  have step: "?cur[?a := d0 ! ?a + d0 ! (?a + k), ?a + k := (d0 ! ?a - d0 ! (?a + k)) * T]
                = butterfly_upto k T l (Suc q) d0"
    using a len by (intro butterfly_step [OF k l refl]) simp
  have "butterfly_loop N (2 * k) k T ?a ?cur
          = butterfly_loop N (2 * k) k T (Suc q * (2 * k) + l) (butterfly_upto k T l (Suc q) d0)"
    using a len by (subst butterfly_loop.simps) (simp add: Let_def nowrap cur step del: mult_Suc)
  also have "\<dots> = Some (butterfly_upto k T l (N div (2 * k)) d0)"
    using Suc.hyps(2) q by (intro Suc.hyps(1)) simp_all
  finally show ?case .
qed


lemma stage_upto_length [simp]: "length (stage_upto k w l d) = length d"
  by (simp add: stage_upto_def)

lemma stage_upto_nth:
  "p < length d \<Longrightarrow>
   stage_upto k w l d ! p =
     (if p mod k < l
      then (if p mod (2 * k) < k then d ! p + d ! (p + k)
            else (d ! (p - k) - d ! p) * w ^ (p mod k))
      else d ! p)"
  by (simp add: stage_upto_def)

lemma stage_upto_0: "stage_upto k w 0 d = d"
  by (rule nth_equalityI) (simp_all add: stage_upto_nth)

lemma block_partner_in_range:
  fixes k p N :: nat
  assumes "0 < k" "2 * k dvd N" "p < N"
  shows "p div (2 * k) < N div (2 * k)"
    and "p mod (2 * k) < k \<Longrightarrow> p + k < N"
    and "\<not> p mod (2 * k) < k \<Longrightarrow> k \<le> p"
proof -
  obtain c where c: "N = 2 * k * c" using assms(2) by (auto elim: dvdE)
  then have cdiv: "N div (2 * k) = c" using assms(1) by simp
  have "p < c * (2 * k)" using assms(3) c by (simp add: mult.commute)
  then show lt: "p div (2 * k) < N div (2 * k)"
    using assms(1) cdiv by (simp add: div_less_iff_less_mult)
  have p: "p = p div (2 * k) * (2 * k) + p mod (2 * k)" by (rule div_mult_mod_eq [symmetric])
  show "p + k < N" if "p mod (2 * k) < k"
  proof -
    have "p + k < p div (2 * k) * (2 * k) + 2 * k" using that p by linarith
    also have "\<dots> = Suc (p div (2 * k)) * (2 * k)" by simp
    also have "\<dots> \<le> c * (2 * k)" using lt cdiv by (intro mult_le_mono1) simp
    finally show ?thesis using c by (simp add: mult.commute)
  qed
  show "k \<le> p" if "\<not> p mod (2 * k) < k"
  proof -
    have "k \<le> p mod (2 * k)" using that by simp
    also have "\<dots> \<le> p" by simp
    finally show ?thesis .
  qed
qed

lemma twiddle_step:
  assumes k: "0 < k" and dvd: "2 * k dvd N" and len: "length d0 = N" and l: "l < k"
  shows "butterfly_upto k (w ^ l) l (N div (2 * k)) (stage_upto k w l d0) = stage_upto k w (Suc l) d0"
proof (rule nth_equalityI)
  show "length (butterfly_upto k (w ^ l) l (N div (2 * k)) (stage_upto k w l d0))
          = length (stage_upto k w (Suc l) d0)"
    by simp
next
  fix p
  assume "p < length (butterfly_upto k (w ^ l) l (N div (2 * k)) (stage_upto k w l d0))"
  then have p: "p < N" using len by simp
  let ?cur = "stage_upto k w l d0"
  note range = block_partner_in_range [OF k dvd p]
  show "butterfly_upto k (w ^ l) l (N div (2 * k)) ?cur ! p = stage_upto k w (Suc l) d0 ! p"
  proof (cases "p mod k = l")
    case False
    then have "(p mod k < Suc l) = (p mod k < l)" by auto
    then have "stage_upto k w (Suc l) d0 ! p = ?cur ! p"
      using p len by (simp only: stage_upto_nth)
    moreover have "butterfly_upto k (w ^ l) l (N div (2 * k)) ?cur ! p = ?cur ! p"
      using False p len by (simp add: butterfly_upto_nth)
    ultimately show ?thesis by simp
  next
    case True
    have curp: "?cur ! p = d0 ! p"
      using True p len by (simp add: stage_upto_nth)
    show ?thesis
    proof (cases "p mod (2 * k) < k")
      case low: True
      have pk: "p + k < N" using range(2) low by simp
      have "(p + k) mod k = l" using True by simp
      then have "?cur ! (p + k) = d0 ! (p + k)"
        using pk len by (simp add: stage_upto_nth)
      then have "butterfly_upto k (w ^ l) l (N div (2 * k)) ?cur ! p = d0 ! p + d0 ! (p + k)"
        using True low p len range(1) curp by (simp add: butterfly_upto_nth)
      moreover have "stage_upto k w (Suc l) d0 ! p = d0 ! p + d0 ! (p + k)"
        using True low p len by (simp add: stage_upto_nth)
      ultimately show ?thesis by simp
    next
      case high: False
      have kp: "k \<le> p" using range(3) high by simp
      then have "(p - k) mod k = l" using True by (simp add: le_mod_geq [symmetric])
      then have "?cur ! (p - k) = d0 ! (p - k)"
        using p len by (simp add: stage_upto_nth)
      then have "butterfly_upto k (w ^ l) l (N div (2 * k)) ?cur ! p = (d0 ! (p - k) - d0 ! p) * w ^ l"
        using True high p len range(1) curp by (simp add: butterfly_upto_nth)
      moreover have "stage_upto k w (Suc l) d0 ! p = (d0 ! (p - k) - d0 ! p) * w ^ l"
        using True high p len by (simp add: stage_upto_nth)
      ultimately show ?thesis by simp
    qed
  qed
qed

lemma twiddle_loop_stage:
  assumes k: "0 < k" and dvd: "2 * k dvd N" and N: "N \<le> 2 ^ 31" and len: "length d0 = N"
    and l: "l \<le> k"
  shows "twiddle_loop N (2 * k) k w (w ^ l) l (stage_upto k w l d0) = Some (stage_upto k w k d0)"
  using l
proof (induction "k - l" arbitrary: l)
  case 0
  then have "l = k" by simp
  then show ?case by (subst twiddle_loop.simps) simp
next
  case (Suc x)
  then have l: "l < k" by simp
  let ?cur = "stage_upto k w l d0"
  have "butterfly_loop N (2 * k) k (w ^ l) (0 * (2 * k) + l) (butterfly_upto k (w ^ l) l 0 ?cur)
          = Some (butterfly_upto k (w ^ l) l (N div (2 * k)) ?cur)"
    using len by (intro butterfly_loop_blocks [OF k dvd l N]) simp_all
  then have inner: "butterfly_loop N (2 * k) k (w ^ l) l ?cur = Some (stage_upto k w (Suc l) d0)"
    by (simp add: butterfly_upto_0 twiddle_step [OF k dvd len l])
  have "twiddle_loop N (2 * k) k w (w ^ l) l ?cur
          = twiddle_loop N (2 * k) k w (w ^ Suc l) (Suc l) (stage_upto k w (Suc l) d0)"
    using l by (subst twiddle_loop.simps) (simp add: inner power_Suc2 del: power_Suc)
  also have "\<dots> = Some (stage_upto k w k d0)"
    using Suc.hyps(2) l by (intro Suc.hyps(1)) simp_all
  finally show ?case .
qed

lemma root_of_unity_power_n: "0 < n \<Longrightarrow> root_of_unity n ^ n = 1"
  by (simp add: root_of_unity_def DeMoivre)

lemma root_of_unity_double_sq: "0 < k \<Longrightarrow> root_of_unity (2 * k) ^ 2 = root_of_unity k"
  by (simp add: root_of_unity_def DeMoivre)

lemma root_of_unity_double_half: "0 < k \<Longrightarrow> root_of_unity (2 * k) ^ k = - 1"
  by (simp add: root_of_unity_def DeMoivre)

lemma root_of_unity_1: "root_of_unity 1 = 1"
  by (simp add: root_of_unity_def)

lemma root_of_unity_double_even:
  assumes "0 < k"
  shows "root_of_unity (2 * k) ^ (2 * e) = root_of_unity k ^ e"
  using root_of_unity_double_sq [OF assms] by (simp add: power_mult)

lemma root_of_unity_double_period:
  assumes "0 < k"
  shows "root_of_unity (2 * k) ^ (2 * k * e) = 1"
  using root_of_unity_power_n [of "2 * k"] assms by (simp add: power_mult)

lemma sum_split_halves:
  fixes f :: "nat \<Rightarrow> 'a::comm_monoid_add"
  shows "(\<Sum>i<2 * k. f i) = (\<Sum>i<k. f i) + (\<Sum>i<k. f (i + k))"
proof -
  have "{..<2 * k} = {..<k} \<union> {k..<2 * k}" by auto
  moreover have "{..<k} \<inter> {k..<2 * k} = {}" by auto
  ultimately have "(\<Sum>i<2 * k. f i) = (\<Sum>i<k. f i) + (\<Sum>i = k..<2 * k. f i)"
    by (simp add: sum.union_disjoint)
  moreover have "(\<Sum>i = k..<2 * k. f i) = (\<Sum>i<k. f (i + k))"
    using sum.shift_bounds_nat_ivl [of f 0 k k] by (simp add: atLeast0LessThan mult_2)
  ultimately show ?thesis by simp
qed

lemma bitrev_low: "r < 2 ^ j \<Longrightarrow> bitrev (Suc j) r = 2 * bitrev j r"
  by simp

lemma bitrev_high:
  assumes "2 ^ j \<le> r" "r < 2 * 2 ^ j"
  shows "bitrev (Suc j) r = 2 * bitrev j (r - 2 ^ j) + 1"
proof -
  have "r div 2 ^ j = 1"
    using assms by (simp add: div_nat_eqI)
  moreover have "r mod 2 ^ j = r - 2 ^ j"
    using assms by (simp add: le_mod_geq)
  ultimately show ?thesis by simp
qed

lemma div_mod_add_mult:
  fixes x c k :: nat
  assumes "x < k"
  shows "(x + c * k) div k = c" "(x + c * k) mod k = x"
  using assms by simp_all

lemma half_block_index:
  fixes k p :: nat
  assumes "0 < k"
  shows "p mod (2 * k) < k \<Longrightarrow> p div k = 2 * (p div (2 * k)) \<and> p mod k = p mod (2 * k)"
    and "\<not> p mod (2 * k) < k \<Longrightarrow>
           p div k = 2 * (p div (2 * k)) + 1 \<and> p mod k = p mod (2 * k) - k"
proof -
  have p: "p = p div (2 * k) * (2 * k) + p mod (2 * k)"
    by (rule div_mult_mod_eq [symmetric])
  have lt: "p mod (2 * k) < 2 * k" using assms by simp
  show "p div k = 2 * (p div (2 * k)) \<and> p mod k = p mod (2 * k)" if "p mod (2 * k) < k"
  proof -
    have "p = p mod (2 * k) + (2 * (p div (2 * k))) * k" using p by simp
    then have "p div k = (p mod (2 * k) + (2 * (p div (2 * k))) * k) div k"
      "p mod k = (p mod (2 * k) + (2 * (p div (2 * k))) * k) mod k" by simp_all
    then show ?thesis by (simp only: div_mod_add_mult [OF that])
  qed
  show "p div k = 2 * (p div (2 * k)) + 1 \<and> p mod k = p mod (2 * k) - k" if "\<not> p mod (2 * k) < k"
  proof -
    have "p = (p mod (2 * k) - k) + (2 * (p div (2 * k)) + 1) * k" using p that by simp
    then have "p div k = ((p mod (2 * k) - k) + (2 * (p div (2 * k)) + 1) * k) div k"
      "p mod k = ((p mod (2 * k) - k) + (2 * (p div (2 * k)) + 1) * k) mod k" by simp_all
    moreover have "p mod (2 * k) - k < k" using lt by simp
    ultimately show ?thesis by (simp only: div_mod_add_mult)
  qed
qed


lemma dif_step:
  fixes d :: "complex list"
  assumes k: "k = 2 ^ j" and dvd: "2 * k dvd N" and len: "length d = N" and p: "p < N"
    and w: "w = root_of_unity (2 * k)"
  shows "(\<Sum>i<k. stage_upto k w k d ! (p div k * k + i) * root_of_unity k ^ (i * bitrev j (p mod k)))
       = (\<Sum>i<2 * k. d ! (p div (2 * k) * (2 * k) + i) * w ^ (i * bitrev (Suc j) (p mod (2 * k))))"
proof -
  define q where "q = p div (2 * k)"
  define r where "r = p mod (2 * k)"
  define A where "A i = d ! (q * (2 * k) + i)" for i
  have kpos: "0 < k" using k by simp
  have r2k: "r < 2 * k" using kpos by (simp add: r_def)
  have "q < N div (2 * k)"
    using block_partner_in_range(1) [OF kpos dvd p] by (simp add: q_def)
  then have "Suc q * (2 * k) \<le> N div (2 * k) * (2 * k)"
    by (intro mult_le_mono1) simp
  then have block: "q * (2 * k) + 2 * k \<le> N"
    using dvd by simp
  have wk: "w ^ (2 * e) = root_of_unity k ^ e" for e
    unfolding w by (rule root_of_unity_double_even [OF kpos])
  have wper: "w ^ (2 * k * e) = 1" for e
    unfolding w by (rule root_of_unity_double_period [OF kpos])
  have whalf: "w ^ k = - 1"
    unfolding w by (rule root_of_unity_double_half [OF kpos])
  have split: "(\<Sum>i<2 * k. A i * w ^ (i * c)) = (\<Sum>i<k. A i * w ^ (i * c) + A (i + k) * w ^ ((i + k) * c))"
    for c
    by (simp add: sum_split_halves sum.distrib)
  show ?thesis
  proof (cases "r < k")
    case True
    have idx: "p div k = 2 * q" "p mod k = r"
      using half_block_index(1) [OF kpos, of p] True by (simp_all add: q_def r_def)
    have rev: "bitrev (Suc j) r = 2 * bitrev j r"
      using True k by (simp only: bitrev_low)
    have stage: "stage_upto k w k d ! (2 * q * k + i) = A i + A (i + k)" if "i < k" for i
    proof -
      have P: "2 * q * k + i = q * (2 * k) + i" by simp
      have "q * (2 * k) + i < N" using that block by simp
      moreover have "(q * (2 * k) + i) mod k < k" using kpos by simp
      moreover have "(q * (2 * k) + i) mod (2 * k) < k"
        using block_index_low(3) [OF that, of q] that by simp
      ultimately show ?thesis
        unfolding P A_def using len by (simp add: stage_upto_nth add.assoc)
    qed
    have "(\<Sum>i<k. stage_upto k w k d ! (p div k * k + i) * root_of_unity k ^ (i * bitrev j (p mod k)))
            = (\<Sum>i<k. (A i + A (i + k)) * root_of_unity k ^ (i * bitrev j r))"
      unfolding idx
    proof (rule sum.cong)
      fix i assume "i \<in> {..<k}"
      then have "i < k" by simp
      show "stage_upto k w k d ! (2 * q * k + i) * root_of_unity k ^ (i * bitrev j r)
              = (A i + A (i + k)) * root_of_unity k ^ (i * bitrev j r)"
        unfolding stage [OF \<open>i < k\<close>] ..
    qed simp
    also have "\<dots> = (\<Sum>i<k. A i * w ^ (i * (2 * bitrev j r)) + A (i + k) * w ^ ((i + k) * (2 * bitrev j r)))"
    proof (rule sum.cong)
      fix i assume "i \<in> {..<k}"
      have e1: "i * (2 * bitrev j r) = 2 * (i * bitrev j r)" by simp
      have e2: "(i + k) * (2 * bitrev j r) = 2 * (i * bitrev j r) + 2 * k * bitrev j r"
        by (simp add: algebra_simps)
      show "(A i + A (i + k)) * root_of_unity k ^ (i * bitrev j r)
              = A i * w ^ (i * (2 * bitrev j r)) + A (i + k) * w ^ ((i + k) * (2 * bitrev j r))"
        unfolding e1 e2 power_add wk wper by (simp add: algebra_simps)
    qed simp
    also have "\<dots> = (\<Sum>i<2 * k. A i * w ^ (i * (2 * bitrev j r)))"
      by (rule split [symmetric])
    finally show ?thesis
      unfolding A_def q_def [symmetric] r_def [symmetric] rev .
  next
    case False
    have idx: "p div k = 2 * q + 1" "p mod k = r - k"
      using half_block_index(2) [OF kpos, of p] False by (simp_all add: q_def r_def)
    have rev: "bitrev (Suc j) r = 2 * bitrev j (r - k) + 1"
      using False r2k k bitrev_high [of j r] by simp
    define B where "B = bitrev j (r - k)"
    have stage: "stage_upto k w k d ! ((2 * q + 1) * k + i) = (A i - A (i + k)) * w ^ i" if "i < k" for i
    proof -
      have P: "(2 * q + 1) * k + i = q * (2 * k) + i + k" by simp
      have "q * (2 * k) + i + k < N" using that block by simp
      moreover have "(q * (2 * k) + i + k) mod k = i"
        using block_index_high(1) [OF that, of q] by simp
      moreover have "(q * (2 * k) + i + k) mod (2 * k) = i + k"
        using block_index_high(3) [OF that, of q] by simp
      ultimately show ?thesis
        unfolding P A_def using len that by (simp add: stage_upto_nth add.assoc)
    qed
    have "(\<Sum>i<k. stage_upto k w k d ! (p div k * k + i) * root_of_unity k ^ (i * bitrev j (p mod k)))
            = (\<Sum>i<k. (A i - A (i + k)) * w ^ i * root_of_unity k ^ (i * B))"
      unfolding idx B_def [symmetric]
    proof (rule sum.cong)
      fix i assume "i \<in> {..<k}"
      then have "i < k" by simp
      show "stage_upto k w k d ! ((2 * q + 1) * k + i) * root_of_unity k ^ (i * B)
              = (A i - A (i + k)) * w ^ i * root_of_unity k ^ (i * B)"
        unfolding stage [OF \<open>i < k\<close>] ..
    qed simp
    also have "\<dots> = (\<Sum>i<k. A i * w ^ (i * (2 * B + 1)) + A (i + k) * w ^ ((i + k) * (2 * B + 1)))"
    proof (rule sum.cong)
      fix i assume "i \<in> {..<k}"
      have e1: "i * (2 * B + 1) = 2 * (i * B) + i" by (simp add: algebra_simps)
      have e2: "(i + k) * (2 * B + 1) = 2 * (i * B) + i + 2 * k * B + k"
        by (simp add: algebra_simps)
      show "(A i - A (i + k)) * w ^ i * root_of_unity k ^ (i * B)
              = A i * w ^ (i * (2 * B + 1)) + A (i + k) * w ^ ((i + k) * (2 * B + 1))"
        unfolding e1 e2 power_add wk wper whalf by (simp add: algebra_simps)
    qed simp
    also have "\<dots> = (\<Sum>i<2 * k. A i * w ^ (i * (2 * B + 1)))"
      by (rule split [symmetric])
    finally show ?thesis
      unfolding A_def q_def [symmetric] r_def [symmetric] rev B_def .
  qed
qed


lemma stage_loop_dft:
  assumes len: "length d = N" and N: "N = 2 ^ m" and m: "m \<le> 31" and j: "j \<le> m"
    and phi: "phi * phi = root_of_unity (2 ^ j)"
  shows "stage_loop N (2 ^ j) phi d =
           Some (map (\<lambda>p. \<Sum>i<2 ^ j. d ! (p div 2 ^ j * 2 ^ j + i) *
                              root_of_unity (2 ^ j) ^ (i * bitrev j (p mod 2 ^ j))) [0..<N])"
  using len j phi
proof (induction j arbitrary: phi d)
  case 0
  have "map (\<lambda>p. \<Sum>i<2 ^ 0. d ! (p div 2 ^ 0 * 2 ^ 0 + i) *
                    root_of_unity (2 ^ 0) ^ (i * bitrev 0 (p mod 2 ^ 0))) [0..<N] = d"
    using "0.prems"(1) by (intro nth_equalityI) simp_all
  moreover have "stage_loop N (2 ^ 0) phi d = Some d"
    by (subst stage_loop.simps) simp
  ultimately show ?case by simp
next
  case (Suc j)
  define k :: nat where "k = 2 ^ j"
  define w where "w = root_of_unity (2 * k)"
  have kpos: "0 < k" by (simp add: k_def)
  have n: "(2::nat) ^ Suc j = 2 * k" by (simp add: k_def)
  have "(2::nat) ^ Suc j dvd 2 ^ m"
    using Suc.prems(2) by (rule le_imp_power_dvd)
  then have dvd: "2 * k dvd N" using N n by simp
  have "(2::nat) ^ m \<le> 2 ^ 31"
    using m by (intro power_increasing) simp_all
  then have N31: "N \<le> 2 ^ 31" using N by simp
  have phi: "phi * phi = w" using Suc.prems(3) by (simp add: w_def k_def)
  have "twiddle_loop N (2 * k) k w (w ^ 0) 0 (stage_upto k w 0 d) = Some (stage_upto k w k d)"
    using Suc.prems(1) by (intro twiddle_loop_stage [OF kpos dvd N31]) simp_all
  then have tw: "twiddle_loop N (2 * k) k w 1 0 d = Some (stage_upto k w k d)"
    by (simp add: stage_upto_0)
  have "w * w = root_of_unity (2 ^ j)"
    using root_of_unity_double_sq [OF kpos] by (simp add: w_def k_def power2_eq_square)
  then have ih: "stage_loop N (2 ^ j) w (stage_upto k w k d) =
      Some (map (\<lambda>p. \<Sum>i<2 ^ j. stage_upto k w k d ! (p div 2 ^ j * 2 ^ j + i) *
                              root_of_unity (2 ^ j) ^ (i * bitrev j (p mod 2 ^ j))) [0..<N])"
    using Suc.prems(1,2) by (intro Suc.IH) simp_all
  have "stage_loop N (2 * k) phi d = stage_loop N k w (stage_upto k w k d)"
    using kpos by (subst stage_loop.simps) (simp add: Let_def drop_bit_eq_div phi tw)
  also have "\<dots> = Some (map (\<lambda>p. \<Sum>i<k. stage_upto k w k d ! (p div k * k + i) *
                              root_of_unity k ^ (i * bitrev j (p mod k))) [0..<N])"
    using ih by (simp add: k_def)
  also have "map (\<lambda>p. \<Sum>i<k. stage_upto k w k d ! (p div k * k + i) *
                              root_of_unity k ^ (i * bitrev j (p mod k))) [0..<N]
           = map (\<lambda>p. \<Sum>i<2 * k. d ! (p div (2 * k) * (2 * k) + i) *
                              w ^ (i * bitrev (Suc j) (p mod (2 * k)))) [0..<N]"
  proof (rule map_cong [OF refl])
    fix p assume "p \<in> set [0..<N]"
    then have "p < N" by simp
    then show "(\<Sum>i<k. stage_upto k w k d ! (p div k * k + i) *
                              root_of_unity k ^ (i * bitrev j (p mod k)))
        = (\<Sum>i<2 * k. d ! (p div (2 * k) * (2 * k) + i) *
                              w ^ (i * bitrev (Suc j) (p mod (2 * k))))"
      by (intro dif_step [OF k_def dvd Suc.prems(1) _ w_def])
  qed
  finally show ?case
    unfolding n w_def .
qed

subsection \<open>The bit reversal\<close>

text \<open>
  Each of the five mask-and-shift assignments of the decimation loop exchanges neighbouring
  groups of bits; together they reverse the 32 bits of the word.
\<close>

lemma index32_cases:
  assumes "i < 32"
  shows "i \<in> {0, 1, 2, 3, 4, 5, 6, 7, 8, 9, 10, 11, 12, 13, 14, 15, 16, 17, 18, 19, 20, 21, 22,
               23, 24, 25, 26, 27, 28, 29, 30, 31 :: nat}"
proof -
  have "i < 16 \<or> (16 \<le> i \<and> i < 32)" using assms by linarith
  then show ?thesis
  proof
    assume "i < 16"
    then have "i < 8 \<or> (8 \<le> i \<and> i < 16)" by linarith
    then show ?thesis by (elim disjE conjE) (simp_all, linarith+)
  next
    assume "16 \<le> i \<and> i < 32"
    then have "(16 \<le> i \<and> i < 24) \<or> (24 \<le> i \<and> i < 32)" by linarith
    then show ?thesis by (elim disjE conjE) (simp_all, linarith+)
  qed
qed

lemma swap1:
  fixes b :: "32 word"
  assumes "i < 32"
  shows "bit ((drop_bit 1 (b AND 0xaaaaaaaa)) OR (push_bit 1 (b AND 0x55555555))) i
           \<longleftrightarrow> bit b (if even i then i + 1 else i - 1)"
  using index32_cases [OF assms]
  by (elim insertE emptyE; simp only: bit_or_iff bit_and_iff bit_drop_bit_eq bit_push_bit_iff comp_def)
     (simp_all flip: numeral_2_eq_2 numeral_3_eq_3)

lemma swap2:
  fixes b :: "32 word"
  assumes "i < 32"
  shows "bit ((drop_bit 2 (b AND 0xcccccccc)) OR (push_bit 2 (b AND 0x33333333))) i
           \<longleftrightarrow> bit b (if even (i div 2) then i + 2 else i - 2)"
  using index32_cases [OF assms]
  by (elim insertE emptyE; simp only: bit_or_iff bit_and_iff bit_drop_bit_eq bit_push_bit_iff comp_def)
     (simp_all flip: numeral_2_eq_2 numeral_3_eq_3)

lemma swap4:
  fixes b :: "32 word"
  assumes "i < 32"
  shows "bit ((drop_bit 4 (b AND 0xf0f0f0f0)) OR (push_bit 4 (b AND 0x0f0f0f0f))) i
           \<longleftrightarrow> bit b (if even (i div 4) then i + 4 else i - 4)"
  using index32_cases [OF assms]
  by (elim insertE emptyE; simp only: bit_or_iff bit_and_iff bit_drop_bit_eq bit_push_bit_iff comp_def)
     (simp_all flip: numeral_2_eq_2 numeral_3_eq_3)

lemma swap8:
  fixes b :: "32 word"
  assumes "i < 32"
  shows "bit ((drop_bit 8 (b AND 0xff00ff00)) OR (push_bit 8 (b AND 0x00ff00ff))) i
           \<longleftrightarrow> bit b (if even (i div 8) then i + 8 else i - 8)"
  using index32_cases [OF assms]
  by (elim insertE emptyE; simp only: bit_or_iff bit_and_iff bit_drop_bit_eq bit_push_bit_iff comp_def)
     (simp_all flip: numeral_2_eq_2 numeral_3_eq_3)

lemma bit32_out_of_range: "32 \<le> n \<Longrightarrow> bit (b :: 32 word) n \<longleftrightarrow> False"
  using bit_imp_le_length [of b n] by auto

lemma swap16:
  fixes b :: "32 word"
  assumes "i < 32"
  shows "bit ((drop_bit 16 b) OR (push_bit 16 b)) i
           \<longleftrightarrow> bit b (if i < 16 then i + 16 else i - 16)"
  using index32_cases [OF assms]
  by (elim insertE emptyE; simp only: bit_or_iff bit_and_iff bit_drop_bit_eq bit_push_bit_iff comp_def)
     (simp_all add: bit32_out_of_range flip: numeral_2_eq_2 numeral_3_eq_3)

lemma swap_index_bounds:
  assumes "i < (32::nat)"
  shows "(if i < 16 then i + 16 else i - 16) < 32"
    and "(if even (i div 8) then i + 8 else i - 8) < 32"
    and "(if even (i div 4) then i + 4 else i - 4) < 32"
    and "(if even (i div 2) then i + 2 else i - 2) < 32"
    and "(if even i then i + 1 else i - 1) < 32"
  using index32_cases [OF assms] by (elim insertE emptyE; simp)+

lemma swap_index_compose:
  assumes "j < (32::nat)"
  shows "(\<lambda>i. if even i then i + 1 else i - 1)
           ((\<lambda>i. if even (i div 2) then i + 2 else i - 2)
             ((\<lambda>i. if even (i div 4) then i + 4 else i - 4)
               ((\<lambda>i. if even (i div 8) then i + 8 else i - 8)
                 ((\<lambda>i. if i < 16 then i + 16 else i - 16) j)))) = 31 - j"
  using index32_cases [OF assms] by (elim insertE emptyE; simp)

lemma full_reverse:
  fixes a :: "32 word"
  assumes "j < 32"
  shows "bit (let b0 = a;
          b1 = (drop_bit 1 (b0 AND 0xaaaaaaaa)) OR (push_bit 1 (b0 AND 0x55555555));
          b2 = (drop_bit 2 (b1 AND 0xcccccccc)) OR (push_bit 2 (b1 AND 0x33333333));
          b3 = (drop_bit 4 (b2 AND 0xf0f0f0f0)) OR (push_bit 4 (b2 AND 0x0f0f0f0f));
          b4 = (drop_bit 8 (b3 AND 0xff00ff00)) OR (push_bit 8 (b3 AND 0x00ff00ff))
      in (drop_bit 16 b4) OR (push_bit 16 b4)) j \<longleftrightarrow> bit a (31 - j)"
proof -
  define j16 where "j16 = (if j < 16 then j + 16 else j - 16)"
  define j8 where "j8 = (if even (j16 div 8) then j16 + 8 else j16 - 8)"
  define j4 where "j4 = (if even (j8 div 4) then j8 + 4 else j8 - 4)"
  define j2 where "j2 = (if even (j4 div 2) then j4 + 2 else j4 - 2)"
  define j1 where "j1 = (if even j2 then j2 + 1 else j2 - 1)"
  have l16: "j16 < 32" unfolding j16_def by (rule swap_index_bounds(1) [OF assms])
  have l8: "j8 < 32" unfolding j8_def by (rule swap_index_bounds(2) [OF l16])
  have l4: "j4 < 32" unfolding j4_def by (rule swap_index_bounds(3) [OF l8])
  have l2: "j2 < 32" unfolding j2_def by (rule swap_index_bounds(4) [OF l4])
  have e: "j1 = 31 - j"
    using swap_index_compose [OF assms]
    unfolding j1_def j2_def j4_def j8_def j16_def by simp
  show ?thesis
    unfolding Let_def swap16 [OF assms] j16_def [symmetric]
      swap8 [OF l16] j8_def [symmetric] swap4 [OF l8] j4_def [symmetric]
      swap2 [OF l4] j2_def [symmetric] swap1 [OF l2] j1_def [symmetric] e ..
qed

lemma reverse_bits_bit:
  assumes "m \<le> 32"
  shows "bit (reverse_bits a m) i \<longleftrightarrow> i < m \<and> bit a (m - 1 - i)"
proof (cases "i < m")
  case False
  then have "32 \<le> 32 - m + i" using assms by linarith
  then have "\<not> bit X (32 - m + i)" for X :: "32 word"
    by (simp only: bit32_out_of_range simp_thms)
  then show ?thesis
    using False by (simp only: reverse_bits_def Let_def bit_drop_bit_eq comp_def simp_thms)
next
  case True
  then have j: "32 - m + i < 32" and e: "31 - (32 - m + i) = m - 1 - i" using assms by linarith+
  show ?thesis
    using full_reverse [OF j, of a] True
    unfolding reverse_bits_def Let_def bit_drop_bit_eq e by simp
qed

lemma bitrev_bit:
  "a < 2 ^ m \<Longrightarrow> bit (bitrev m a) i \<longleftrightarrow> i < m \<and> bit a (m - 1 - i)"
proof (induction m arbitrary: a i)
  case 0
  then show ?case by simp
next
  case (Suc m)
  let ?B = "bitrev m (a mod 2 ^ m)"
  let ?t = "a div 2 ^ m"
  have t: "?t < 2" using Suc.prems by (simp add: less_mult_imp_div_less)
  have IH: "bit ?B k \<longleftrightarrow> k < m \<and> bit (a mod 2 ^ m) (m - 1 - k)" for k
    by (rule Suc.IH) simp
  show ?case
  proof (cases i)
    case 0
    have "bit (bitrev (Suc m) a) 0 \<longleftrightarrow> odd ?t"
      by (simp add: bit_0)
    also have "\<dots> \<longleftrightarrow> bit a m"
      by (simp add: bit_iff_odd)
    finally show ?thesis using 0 by simp
  next
    case (Suc k)
    have "bit (bitrev (Suc m) a) (Suc k) \<longleftrightarrow> bit ((2 * ?B + ?t) div 2) k"
      by (simp only: bit_Suc bitrev.simps)
    also have "(2 * ?B + ?t) div 2 = ?B" using t by simp
    also have "bit ?B k \<longleftrightarrow> k < m \<and> bit (a mod 2 ^ m) (m - 1 - k)" by (rule IH)
    also have "\<dots> \<longleftrightarrow> k < m \<and> bit a (m - 1 - k)"
      by (auto simp add: bit_take_bit_iff simp flip: take_bit_eq_mod)
    finally show ?thesis using Suc by simp
  qed
qed

lemma bitrev_less: "a < 2 ^ m \<Longrightarrow> bitrev m a < 2 ^ m"
proof (induction m arbitrary: a)
  case 0
  then show ?case by simp
next
  case (Suc m)
  have t: "a div 2 ^ m < 2" using Suc.prems by (simp add: less_mult_imp_div_less)
  have "bitrev m (a mod 2 ^ m) < 2 ^ m" by (rule Suc.IH) simp
  with t show ?case by simp
qed

lemma bitrev_involution:
  assumes "a < 2 ^ m"
  shows "bitrev m (bitrev m a) = a"
proof (rule bit_eqI)
  fix i
  have "bit (bitrev m (bitrev m a)) i \<longleftrightarrow> i < m \<and> bit (bitrev m a) (m - 1 - i)"
    by (rule bitrev_bit [OF bitrev_less [OF assms]])
  also have "\<dots> \<longleftrightarrow> i < m \<and> (m - 1 - i < m \<and> bit a (m - 1 - (m - 1 - i)))"
    by (simp only: bitrev_bit [OF assms])
  also have "\<dots> \<longleftrightarrow> i < m \<and> bit a i"
    by (cases "i < m") simp_all
  also have "\<dots> \<longleftrightarrow> bit a i"
    proof (cases "i < m")
    case True
    then show ?thesis by simp
  next
    case False
    then have "a < 2 ^ i" using assms
      by (meson leI order_less_le_trans power_increasing one_le_numeral)
    then have "\<not> bit a i" by (simp add: bit_iff_odd)
    with False show ?thesis by simp
  qed
  finally show "bit (bitrev m (bitrev m a)) i \<longleftrightarrow> bit a i" .
qed

lemma reverse_bits_bitrev:
  assumes "m \<le> 32" and "a < 2 ^ m"
  shows "unat (reverse_bits (word_of_nat a) m) = bitrev m a"
proof (rule bit_eqI)
  fix i
  have "bit (unat (reverse_bits (word_of_nat a) m)) i
          \<longleftrightarrow> i < m \<and> bit (word_of_nat a :: 32 word) (m - 1 - i)"
    using assms(1) by (auto simp add: bit_unsigned_iff reverse_bits_bit dest: bit_imp_possible_bit)
  also have "\<dots> \<longleftrightarrow> i < m \<and> bit a (m - 1 - i)"
    using assms(1) by (auto simp add: bit_of_nat_iff)
  also have "\<dots> \<longleftrightarrow> bit (bitrev m a) i"
    by (simp only: bitrev_bit [OF assms(2)])
  finally show "bit (unat (reverse_bits (word_of_nat a) m)) i \<longleftrightarrow> bit (bitrev m a) i" .
qed

subsection \<open>The decimation loop\<close>

lemma decimate_upto_length: "length (decimate_upto m a d) = length d"
  by (simp add: decimate_upto_def)

lemma decimate_upto_nth:
  "p < length d \<Longrightarrow> decimate_upto m a d ! p
     = (if p < a \<or> bitrev m p < a then d ! bitrev m p else d ! p)"
  by (simp add: decimate_upto_def)

lemma decimate_upto_0: "decimate_upto m 0 d = d"
  by (rule nth_equalityI) (simp_all add: decimate_upto_length decimate_upto_nth)

lemma decimate_upto_all:
  assumes "length d = 2 ^ m"
  shows "decimate_upto m (2 ^ m) d = map (\<lambda>p. d ! bitrev m p) [0..<2 ^ m]"
  by (rule nth_equalityI) (simp_all add: decimate_upto_length decimate_upto_nth assms)

lemma decimate_upto_step:
  assumes len: "length d = 2 ^ m" and a: "a < 2 ^ m"
  shows "decimate_upto m (a + 1) d
           = (if bitrev m a > a
              then (decimate_upto m a d)[a := decimate_upto m a d ! bitrev m a,
                                         bitrev m a := decimate_upto m a d ! a]
              else decimate_upto m a d)"
proof -
  let ?D = "decimate_upto m a d"
  let ?b = "bitrev m a"
  have b: "?b < 2 ^ m" by (rule bitrev_less [OF a])
  have rb: "bitrev m ?b = a" by (rule bitrev_involution [OF a])
  have inj: "p = ?b" if "p < 2 ^ m" "bitrev m p = a" for p
    using bitrev_involution [OF that(1)] that(2) by simp
  show ?thesis
  proof (cases "?b > a")
    case True
    have Db: "?D ! ?b = d ! ?b"
      using True b rb len by (simp add: decimate_upto_nth)
    have Da: "?D ! a = d ! a"
      using True a len by (simp add: decimate_upto_nth)
    have "decimate_upto m (a + 1) d = ?D[a := d ! ?b, ?b := d ! a]"
    proof (rule nth_equalityI)
      show "length (decimate_upto m (a + 1) d) = length (?D[a := d ! ?b, ?b := d ! a])"
        by (simp add: decimate_upto_length)
    next
      fix p assume "p < length (decimate_upto m (a + 1) d)"
      then have p: "p < 2 ^ m" by (simp add: decimate_upto_length len)
      consider "p = ?b" | "p = a" "p \<noteq> ?b" | "p \<noteq> a" "p \<noteq> ?b" by blast
      then show "decimate_upto m (a + 1) d ! p = ?D[a := d ! ?b, ?b := d ! a] ! p"
      proof cases
        case 1
        then show ?thesis
          using b rb len by (simp add: decimate_upto_nth decimate_upto_length)
      next
        case 2
        then show ?thesis
          using a len by (simp add: decimate_upto_nth decimate_upto_length)
      next
        case 3
        then have "bitrev m p \<noteq> a" using inj [OF p] by blast
        then have "(p < a + 1 \<or> bitrev m p < a + 1) \<longleftrightarrow> (p < a \<or> bitrev m p < a)"
          using 3(1) by linarith
        then show ?thesis
          using 3 p len by (simp add: decimate_upto_nth decimate_upto_length)
      qed
    qed
    with True Db Da show ?thesis by simp
  next
    case False
    have "decimate_upto m (a + 1) d = ?D"
    proof (rule nth_equalityI)
      show "length (decimate_upto m (a + 1) d) = length ?D"
        by (simp add: decimate_upto_length)
    next
      fix p assume "p < length (decimate_upto m (a + 1) d)"
      then have p: "p < 2 ^ m" by (simp add: decimate_upto_length len)
      consider "p = a" | "p \<noteq> a" "bitrev m p = a" | "p \<noteq> a" "bitrev m p \<noteq> a" by blast
      then show "decimate_upto m (a + 1) d ! p = ?D ! p"
      proof cases
        case 1
        then show ?thesis
          using False a len by (auto simp add: decimate_upto_nth)
      next
        case 2
        then have "p = ?b" using inj [OF p] by blast
        with 2 False have "p < a" by linarith
        then show ?thesis
          using p len by (simp add: decimate_upto_nth)
      next
        case 3
        then have "(p < a + 1 \<or> bitrev m p < a + 1) \<longleftrightarrow> (p < a \<or> bitrev m p < a)"
          by linarith
        then show ?thesis
          using p len by (simp add: decimate_upto_nth)
      qed
    qed
    with False show ?thesis by simp
  qed
qed

lemma decimate_loop_upto:
  assumes len: "length d = N" and N: "N = 2 ^ m" and m: "1 \<le> m" "m \<le> 31" and a: "a \<le> N"
  shows "decimate_loop N m a (decimate_upto m a d) = Some (decimate_upto m N d)"
  using a
proof (induction "N - a" arbitrary: a)
  case 0
  then have "a = N" by simp
  then show ?case by (subst decimate_loop.simps) simp
next
  case (Suc n)
  then have a: "a < 2 ^ m" using N by linarith
  have m32: "m \<le> 32" using m by simp
  have rb: "unat (reverse_bits (word_of_nat a) m) = bitrev m a"
    by (rule reverse_bits_bitrev [OF m32 a])
  have b: "bitrev m a < 2 ^ m" by (rule bitrev_less [OF a])
  have IH: "decimate_loop N m (a + 1) (decimate_upto m (a + 1) d) = Some (decimate_upto m N d)"
    using Suc by simp
  have len': "length d = 2 ^ m" using len N by simp
  have "decimate_loop N m a (decimate_upto m a d)
          = decimate_loop N m (a + 1) (decimate_upto m (a + 1) d)"
    unfolding decimate_upto_step [OF len' a]
    using a b m
    by (subst decimate_loop.simps) (simp add: rb Let_def decimate_upto_length len' N)
  with IH show ?case by simp
qed

lemma decimate_loop_bitrev:
  assumes "length d = N" and "N = 2 ^ m" and "1 \<le> m" and "m \<le> 31"
  shows "decimate_loop N m 0 d = Some (map (\<lambda>p. d ! bitrev m p) [0..<N])"
  using decimate_loop_upto [OF assms, of 0] assms(1,2)
  by (simp add: decimate_upto_0 decimate_upto_all)

subsection \<open>The transform is the discrete Fourier transform\<close>

lemma floor_log2_power: "nat \<lfloor>log 2 (real ((2::nat) ^ m))\<rfloor> = m"
  by simp

lemma phiT_squared:
  assumes "0 < N"
  shows "Complex (cos (pi / real N)) (sin (pi / real N)) * Complex (cos (pi / real N)) (sin (pi / real N))
           = root_of_unity N"
proof -
  have "Complex (cos (pi / real N)) (sin (pi / real N)) = cis (pi / real N)"
    by (simp add: cis.code)
  moreover have "cis (pi / real N) * cis (pi / real N) = cis (2 * pi / real N)"
    by (simp add: cis_mult)
  ultimately show ?thesis by (simp add: root_of_unity_def)
qed

lemma CooleyTukeyFFT_dft:
  assumes len: "length d = 2 ^ m" and m1: "1 \<le> m" and m: "m \<le> 31"
  shows "CooleyTukeyFFT d = Some (dft d)"
proof -
  let ?N = "(2::nat) ^ m"
  let ?w = "root_of_unity ?N"
  let ?phi = "Complex (cos (pi / real ?N)) (sin (pi / real ?N))"
  let ?D = "map (\<lambda>p. \<Sum>i<?N. d ! (p div ?N * ?N + i) * ?w ^ (i * bitrev m (p mod ?N))) [0..<?N]"
  have "?N \<le> 2 ^ 31" using m by (rule power_increasing) simp
  then have "?N < 2 ^ 32" by simp
  then have mod: "length d mod 2 ^ 32 = ?N" unfolding len by (rule mod_less)
  have phi: "?phi * ?phi = ?w" by (rule phiT_squared) simp
  have stage: "stage_loop ?N ?N ?phi d = Some ?D"
    by (rule stage_loop_dft [OF len refl m order_refl phi])
  have lenD: "length ?D = ?N" by simp
  have dec: "decimate_loop ?N m 0 ?D = Some (map (\<lambda>p. ?D ! bitrev m p) [0..<?N])"
    by (rule decimate_loop_bitrev [OF lenD refl m1 m])
  have final: "map (\<lambda>p. ?D ! bitrev m p) [0..<?N] = dft d"
  proof (rule nth_equalityI)
    show "length (map (\<lambda>p. ?D ! bitrev m p) [0..<?N]) = length (dft d)"
      by (simp add: dft_def len)
  next
    fix p assume "p < length (map (\<lambda>p. ?D ! bitrev m p) [0..<?N])"
    then have p: "p < ?N" by simp
    have b: "bitrev m p < ?N" by (rule bitrev_less [OF p])
    have inv: "bitrev m (bitrev m p) = p" by (rule bitrev_involution [OF p])
    show "map (\<lambda>p. ?D ! bitrev m p) [0..<?N] ! p = dft d ! p"
      using p b inv by (simp add: dft_def len)
  qed
  have pos: "(2::nat) ^ m \<noteq> 0" by simp
  show ?thesis
    unfolding CooleyTukeyFFT_def Let_def mod
    by (simp only: stage option.case floor_log2_power dec final pos if_False)
qed

lemma CooleyTukeyFFT_truncated:
  assumes "length d mod 2 ^ 32 = 0"
  shows "CooleyTukeyFFT d = None"
proof -
  have s: "stage_loop 0 0 phi d = Some d" for phi
    by (subst stage_loop.simps) simp
  show ?thesis
    unfolding CooleyTukeyFFT_def Let_def assms by (simp add: s)
qed


section \<open>Verification: the precondition of the forward transform\<close>

lemma power2_and_pred: "(2::nat) ^ k AND (2 ^ k - 1) = 0"
proof -
  have "(2::nat) ^ k AND mask k = take_bit k (2 ^ k)"
    by (simp only: take_bit_eq_mask)
  also have "\<dots> = 0" by (simp add: take_bit_eq_mod)
  finally show ?thesis by (simp add: mask_eq_exp_minus_1)
qed

lemma and_pred_power2:
  "0 < (n::nat) \<Longrightarrow> (n AND (n - 1)) = 0 \<Longrightarrow> \<exists>k. n = 2 ^ k"
proof (induction n rule: less_induct)
  case (less n)
  show ?case
  proof (cases "n = 1")
    case True
    then have "n = 2 ^ 0" by simp
    then show ?thesis by blast
  next
    case False
    with less.prems have n2: "2 \<le> n" by linarith
    show ?thesis
    proof (cases "even n")
      case True
      then obtain q where q: "n = 2 * q" by (elim evenE)
      with n2 have q0: "0 < q" by linarith
      have pred: "n - 1 = 2 * (q - 1) + 1" using q q0 by linarith
      have "n AND (n - 1) = 2 * (q AND (q - 1))"
        unfolding pred unfolding q
        by (subst and_nat_rec) simp
      with less.prems(2) have "q AND (q - 1) = 0" by simp
      moreover have "q < n" using q q0 by linarith
      ultimately obtain k where "q = 2 ^ k" using less.IH q0 by blast
      with q have "n = 2 ^ Suc k" by simp
      then show ?thesis by blast
    next
      case False
      then obtain q where q: "n = 2 * q + 1" by (elim oddE)
      with n2 have q0: "0 < q" by linarith
      have pred: "n - 1 = 2 * q" using q by linarith
      have "n AND (n - 1) = 2 * (q AND q)"
        unfolding pred unfolding q
        by (subst and_nat_rec) simp
      with less.prems(2) q0 show ?thesis by simp
    qed
  qed
qed

lemma IsPowerOf2_iff: "IsPowerOf2 n \<longleftrightarrow> (\<exists>k. n = 2 ^ k)"
proof
  assume "IsPowerOf2 n"
  then show "\<exists>k. n = 2 ^ k"
    unfolding IsPowerOf2_def using and_pred_power2 by blast
next
  assume "\<exists>k. n = 2 ^ k"
  then obtain k where "n = 2 ^ k" by blast
  then show "IsPowerOf2 n"
    unfolding IsPowerOf2_def using power2_and_pred [of k] by simp
qed

lemma Forward_dft:
  assumes "length d = 2 ^ k" "1 \<le> k" "k \<le> 31"
  shows "Forward d = Some (Inr (), dft d)"
proof -
  have "IsPowerOf2 (length d)" using assms(1) IsPowerOf2_iff by blast
  then show ?thesis
    by (simp add: Forward_def CooleyTukeyFFT_dft [OF assms])
qed

lemma Forward_not_power_of_2:
  assumes "\<not> (\<exists>k. length d = 2 ^ k)"
  shows "Forward d = Some (Inl (runtime_error ''FFT size not a power of 2''), d)"
proof -
  have "\<not> IsPowerOf2 (length d)" using assms by (simp add: IsPowerOf2_iff)
  then show ?thesis by (simp add: Forward_def)
qed

lemma Forward_power_of_2_no_error:
  assumes "\<exists>k. length d = 2 ^ k"
  shows "Forward d \<noteq> Some (Inl e, d')"
proof -
  have "IsPowerOf2 (length d)" using assms by (simp add: IsPowerOf2_iff)
  then show ?thesis by (simp add: Forward_def split: option.splits)
qed

lemma Forward_truncated_size:
  assumes "length d = 2 ^ k" "32 \<le> k"
  shows "Forward d = None"
proof -
  have "IsPowerOf2 (length d)" using assms(1) IsPowerOf2_iff by blast
  moreover have "(2::nat) ^ 32 dvd 2 ^ k" using assms(2) by (rule le_imp_power_dvd)
  then have "length d mod 2 ^ 32 = 0" using assms(1) by (simp only: mod_eq_0_iff_dvd)
  then have "CooleyTukeyFFT d = None" by (rule CooleyTukeyFFT_truncated)
  ultimately show ?thesis by (simp add: Forward_def)
qed

text \<open>
  Claim C8 (counterexample). The claim promises that the call completes for every
  power-of-two length. The length \<open>2 ^ 32\<close> is a power of two and passes the check, but
  the transform keeps the size in a \<^verbatim>\<open>uint32_t\<close>, where it is 0, and then converts
  \<open>log2(0)\<close> to an unsigned integer: the call has no defined result.
\<close>

theorem Forward_undefined_at_2_32:
  "IsPowerOf2 (length (replicate (2 ^ 32) (0 :: complex))) \<and>
   Forward (replicate (2 ^ 32) (0 :: complex)) = None"
proof -
  have len: "length (replicate (2 ^ 32) (0 :: complex)) = 2 ^ 32" by simp
  have "IsPowerOf2 (length (replicate (2 ^ 32) (0 :: complex)))"
    unfolding len IsPowerOf2_iff by blast
  moreover have "Forward (replicate (2 ^ 32) (0 :: complex)) = None"
    by (rule Forward_truncated_size [OF len]) simp
  ultimately show ?thesis by blast
qed

text \<open>
  Claim C8 (amended). \<open>Forward\<close> fails with the error \<open>FFT size not a power of 2\<close> exactly
  when the length of the buffer is not a power of two, the empty buffer included; this is
  its only failure, and it leaves the buffer as it was (the check precedes the transform).
  For every power-of-two length \<open>2 ^ k\<close> with \<open>1 \<le> k \<le> 31\<close>, the lengths that the
  \<^verbatim>\<open>uint32_t\<close> indices of the transform hold, the call completes without error. Nothing
  is stated about length 1, where the decimation loop shifts by the width of its operand
  (lemma \<open>CooleyTukeyFFT_one\<close>).
\<close>

theorem Forward_precondition:
  "(Forward data = Some (Inl (runtime_error ''FFT size not a power of 2''), data)
      \<longleftrightarrow> \<not> (\<exists>k. length data = 2 ^ k)) \<and>
   (\<forall>e d. Forward data = Some (Inl e, d)
      \<longrightarrow> e = runtime_error ''FFT size not a power of 2'' \<and> d = data) \<and>
   Forward [] = Some (Inl (runtime_error ''FFT size not a power of 2''), []) \<and>
   (length data = 2 ^ k \<and> 1 \<le> k \<and> k \<le> 31
      \<longrightarrow> (\<exists>data'. Forward data = Some (Inr (), data')))"
proof -
  have c1: "(Forward data = Some (Inl (runtime_error ''FFT size not a power of 2''), data))
          \<longleftrightarrow> \<not> (\<exists>k. length data = 2 ^ k)"
    using Forward_not_power_of_2 [of data] Forward_power_of_2_no_error [of data] by blast
  have c2: "\<forall>e d. Forward data = Some (Inl e, d)
      \<longrightarrow> e = runtime_error ''FFT size not a power of 2'' \<and> d = data"
    by (auto simp: Forward_def split: if_splits option.splits)
  have c3: "Forward [] = Some (Inl (runtime_error ''FFT size not a power of 2''), [])"
    by (simp add: Forward_def IsPowerOf2_def)
  have c4: "length data = 2 ^ k \<and> 1 \<le> k \<and> k \<le> 31
      \<longrightarrow> (\<exists>data'. Forward data = Some (Inr (), data'))"
    using Forward_dft [of data k] by blast
  from c1 c2 c3 c4 show ?thesis by (intro conjI)
qed

theorem Forward_precondition_witness:
  "length [1, 2 :: complex] = 2 ^ 1 \<and> (1 :: nat) \<le> 1 \<and> (1 :: nat) \<le> 31 \<and>
   (\<exists>data'. Forward [1, 2] = Some (Inr (), data')) \<and>
   Forward [1, 2] \<noteq> Some (Inl (runtime_error ''FFT size not a power of 2''), [1, 2])"
proof -
  have "\<exists>k. length [1, 2 :: complex] = 2 ^ k"
    by (rule exI [of _ 1]) simp
  with Forward_precondition [of "[1, 2]" 1] show ?thesis by simp
qed

section \<open>Verification: the inverse transform\<close>

lemma conjugate_cnj: "conjugate v = map cnj v"
  by (simp add: conjugate_def complex_eq_iff)

lemma root_of_unity_cnj_mult: "root_of_unity n * cnj (root_of_unity n) = 1"
  by (simp add: root_of_unity_def cis_cnj cis_mult)

lemma root_of_unity_inj:
  assumes "j < n" "p < n" "root_of_unity n ^ j = root_of_unity n ^ p"
  shows "j = p"
proof -
  have n: "0 < n" using assms(1) by simp
  have eq: "cis (2 * pi * real j / real n) = cis (2 * pi * real p / real n)"
    using assms(3) by (simp add: root_of_unity_def DeMoivre mult.commute)
  have "inj_on (\<lambda>k. cis (2 * pi * real k / real n)) {..<n}"
    using bij_betw_roots_unity [OF n] by (simp add: bij_betw_def)
  then show ?thesis
    using eq assms(1,2) by (auto dest: inj_onD)
qed

lemma root_of_unity_orthogonal:
  assumes "j < n" "p < n"
  shows "(\<Sum>k<n. root_of_unity n ^ (j * k) * cnj (root_of_unity n) ^ (k * p))
           = (if j = p then of_nat n else 0)"
proof -
  let ?w = "root_of_unity n"
  let ?z = "?w ^ j * cnj ?w ^ p"
  have n: "0 < n" using assms(1) by simp
  have pw: "?w ^ (j * k) * cnj ?w ^ (k * p) = ?z ^ k" for k
    by (simp add: power_mult power_mult_distrib mult.commute [of k p])
  have sum: "(\<Sum>k<n. ?w ^ (j * k) * cnj ?w ^ (k * p)) = (\<Sum>k<n. ?z ^ k)"
    by (simp only: pw)
  show ?thesis
  proof (cases "j = p")
    case True
    have "?z = (?w * cnj ?w) ^ p" using True by (simp add: power_mult_distrib)
    then have "?z = 1" by (simp add: root_of_unity_cnj_mult)
    then show ?thesis using True sum by simp
  next
    case False
    have z1: "?z \<noteq> 1"
    proof
      assume "?z = 1"
      then have "?z * ?w ^ p = ?w ^ p" by simp
      moreover have "?z * ?w ^ p = ?w ^ j * (?w * cnj ?w) ^ p"
        by (simp add: power_mult_distrib)
      ultimately have "?w ^ j = ?w ^ p" by (simp add: root_of_unity_cnj_mult)
      with root_of_unity_inj [OF assms] False show False by blast
    qed
    have "?z ^ n = (?w ^ n) ^ j * cnj (?w ^ n) ^ p"
      by (simp add: power_mult_distrib power_mult [symmetric] mult.commute)
    then have zn: "?z ^ n = 1" by (simp add: root_of_unity_power_n [OF n])
    have "(\<Sum>k<n. ?z ^ k) = (?z ^ n - 1) / (?z - 1)"
      using z1 by (rule geometric_sum)
    then have "(\<Sum>k<n. ?z ^ k) = 0" using zn by simp
    with False sum show ?thesis by simp
  qed
qed

lemma dft_length: "length (dft x) = length x"
  by (simp add: dft_def)

lemma dft_nth: "p < length x \<Longrightarrow> dft x ! p = (\<Sum>j<length x. x ! j * root_of_unity (length x) ^ (j * p))"
  by (simp add: dft_def)

lemma dft_inversion:
  assumes "0 < length x"
  shows "Normalise (conjugate (dft (conjugate (dft x)))) = x"
proof (rule nth_equalityI)
  show "length (Normalise (conjugate (dft (conjugate (dft x))))) = length x"
    by (simp add: Normalise_def conjugate_cnj dft_length)
next
  fix p assume "p < length (Normalise (conjugate (dft (conjugate (dft x)))))"
  then have p: "p < length x"
    by (simp add: Normalise_def conjugate_cnj dft_length)
  let ?N = "length x"
  let ?w = "root_of_unity ?N"
  have "cnj (dft (map cnj (dft x)) ! p)
          = (\<Sum>k<?N. cnj (map cnj (dft x) ! k) * cnj ?w ^ (k * p))"
    using p by (simp add: dft_nth dft_length)
  also have "\<dots> = (\<Sum>k<?N. (\<Sum>j<?N. x ! j * ?w ^ (j * k)) * cnj ?w ^ (k * p))"
  proof (rule sum.cong [OF refl])
    fix k assume "k \<in> {..<?N}"
    then have k: "k < ?N" by simp
    then have "cnj (map cnj (dft x) ! k) = dft x ! k"
      by (simp add: dft_length)
    then show "cnj (map cnj (dft x) ! k) * cnj ?w ^ (k * p)
                 = (\<Sum>j<?N. x ! j * ?w ^ (j * k)) * cnj ?w ^ (k * p)"
      using k by (simp only: dft_nth)
  qed
  also have "\<dots> = (\<Sum>k<?N. \<Sum>j<?N. x ! j * (?w ^ (j * k) * cnj ?w ^ (k * p)))"
    by (simp add: sum_distrib_right mult.assoc)
  also have "\<dots> = (\<Sum>j<?N. \<Sum>k<?N. x ! j * (?w ^ (j * k) * cnj ?w ^ (k * p)))"
    by (rule sum.swap)
  also have "\<dots> = (\<Sum>j<?N. x ! j * (\<Sum>k<?N. ?w ^ (j * k) * cnj ?w ^ (k * p)))"
    by (simp add: sum_distrib_left)
  also have "\<dots> = (\<Sum>j<?N. x ! j * (if j = p then of_nat ?N else 0))"
    using p by (intro sum.cong refl) (simp add: root_of_unity_orthogonal)
  also have "\<dots> = (\<Sum>j<?N. if j = p then x ! p * of_nat ?N else 0)"
    by (intro sum.cong refl) simp
  also have "\<dots> = x ! p * of_nat ?N"
    using p by (simp add: sum.delta)
  finally have "cnj (dft (map cnj (dft x)) ! p) = x ! p * of_nat ?N" .
  then show "Normalise (conjugate (dft (conjugate (dft x)))) ! p = x ! p"
    using p assms by (simp add: Normalise_def conjugate_cnj dft_length)
qed

lemma Inverse_dft:
  assumes "length X = 2 ^ k" "1 \<le> k" "k \<le> 31"
  shows "Inverse X = Some (Inr (), Normalise (conjugate (dft (conjugate X))))"
proof -
  have "IsPowerOf2 (length X)" using assms(1) IsPowerOf2_iff by blast
  moreover have "length (conjugate X) = 2 ^ k" using assms(1) by (simp add: conjugate_cnj)
  then have "CooleyTukeyFFT (conjugate X) = Some (dft (conjugate X))"
    using assms(2,3) by (rule CooleyTukeyFFT_dft)
  ultimately show ?thesis by (simp add: Inverse_def)
qed

lemma Inverse_truncated_size:
  assumes "length d = 2 ^ k" "32 \<le> k"
  shows "Inverse d = None"
proof -
  have "IsPowerOf2 (length d)" using assms(1) IsPowerOf2_iff by blast
  moreover have "(2::nat) ^ 32 dvd 2 ^ k" using assms(2) by (rule le_imp_power_dvd)
  then have "length (conjugate d) mod 2 ^ 32 = 0"
    using assms(1) by (simp add: conjugate_cnj mod_eq_0_iff_dvd)
  then have "CooleyTukeyFFT (conjugate d) = None" by (rule CooleyTukeyFFT_truncated)
  ultimately show ?thesis by (simp add: Inverse_def)
qed

text \<open>
  Claim C1 (counterexample). The claim covers every buffer whose length is a power of two.
  For the buffer of \<open>2 ^ 32\<close> ones neither \<open>Forward\<close> nor \<open>Inverse\<close> has a defined result:
  the transform truncates the size to the \<^verbatim>\<open>uint32_t\<close> value 0 and converts \<open>log2(0)\<close> to an
  unsigned integer. There is no \<open>Inverse(Forward(x))\<close> to compare with \<open>x\<close>.
\<close>

theorem Inverse_Forward_undefined_at_2_32:
  "length (replicate (2 ^ 32) (1 :: complex)) = 2 ^ 32 \<and>
   Forward (replicate (2 ^ 32) (1 :: complex)) = None \<and>
   Inverse (replicate (2 ^ 32) (1 :: complex)) = None"
proof -
  have len: "length (replicate (2 ^ 32) (1 :: complex)) = 2 ^ 32" by simp
  have "Forward (replicate (2 ^ 32) (1 :: complex)) = None"
    by (rule Forward_truncated_size [OF len]) simp
  moreover have "Inverse (replicate (2 ^ 32) (1 :: complex)) = None"
    by (rule Inverse_truncated_size [OF len]) simp
  ultimately show ?thesis using len by blast
qed

text \<open>
  Claim C1 (amended). For every complex buffer \<open>x\<close> whose length \<open>N\<close> is a power of two
  \<open>2 ^ k\<close> with \<open>1 \<le> k \<le> 31\<close>, \<open>Forward\<close> returns a spectrum \<open>X\<close>, and \<open>Inverse\<close> applied to \<open>X\<close>
  returns \<open>x\<close>. \<open>Inverse\<close> is the composition named in the claim: with \<open>Y\<close> the forward
  transform of the conjugated bins of \<open>X\<close>, its result is every bin of \<open>Y\<close> conjugated and
  divided by \<open>N\<close>. Floating point is idealised as exact complex arithmetic, in which the
  result is \<open>x\<close> itself; the rounding of the machine arithmetic is not modelled.
\<close>

theorem Inverse_Forward_identity:
  assumes "length x = 2 ^ k" and "1 \<le> k" and "k \<le> 31"
  shows "\<exists>X Y. Forward x = Some (Inr (), X) \<and>
               Forward (map cnj X) = Some (Inr (), Y) \<and>
               Inverse X = Some (Inr (), map (\<lambda>z. z / of_nat (length x)) (map cnj Y)) \<and>
               Inverse X = Some (Inr (), x)"
proof -
  let ?X = "dft x"
  let ?Y = "dft (map cnj ?X)"
  have fx: "Forward x = Some (Inr (), ?X)"
    by (rule Forward_dft [OF assms])
  have lX: "length ?X = 2 ^ k" using assms(1) by (simp add: dft_length)
  then have lcX: "length (map cnj ?X) = 2 ^ k" by simp
  have fy: "Forward (map cnj ?X) = Some (Inr (), ?Y)"
    by (rule Forward_dft [OF lcX assms(2,3)])
  have inv: "Inverse ?X = Some (Inr (), Normalise (conjugate ?Y))"
    using Inverse_dft [OF lX assms(2,3)] by (simp only: conjugate_cnj)
  have nrm: "Normalise (conjugate ?Y) = map (\<lambda>z. z / of_nat (length x)) (map cnj ?Y)"
    by (simp add: Normalise_def conjugate_cnj dft_length)
  have pos: "0 < length x" using assms(1) by simp
  have rt: "Normalise (conjugate ?Y) = x"
    using dft_inversion [OF pos] by (simp only: conjugate_cnj)
  show ?thesis
    using fx fy inv nrm rt by (intro exI [of _ ?X] exI [of _ ?Y]) simp
qed

theorem Inverse_Forward_identity_witness:
  "length [1, 2 :: complex] = 2 ^ 1 \<and> (1 :: nat) \<le> 1 \<and> (1 :: nat) \<le> 31 \<and>
   (\<exists>X Y. Forward [1, 2] = Some (Inr (), X) \<and>
          Forward (map cnj X) = Some (Inr (), Y) \<and>
          Inverse X = Some (Inr (), map (\<lambda>z. z / of_nat (length [1, 2 :: complex])) (map cnj Y)) \<and>
          Inverse X = Some (Inr (), [1, 2]))"
  using Inverse_Forward_identity [of "[1, 2]" 1] by simp

section \<open>Verification: applying a filter\<close>















end
